theory Spec2Isabelle
  imports Main "HOL-Library.AList"
begin

section \<open>JavaScript values\<close>

text \<open>
  Both handlers of the relay work on the result of \<^verbatim>\<open>JSON.parse\<close>, which is untyped at run
  time (the TypeScript casts do nothing). A parsed frame is a value of \<open>js\<close>; \<open>JUndefined\<close> is
  what reading an absent property gives. An object is its list of properties (the first
  binding of a key is the property's value).
\<close>

datatype js =
    JUndefined
  | JNull
  | JBool bool
  | JNum int
  | JStr string
  | JArr "js list"
  | JObj "(string \<times> js) list"

datatype js_exn = TypeError | SyntaxError

text \<open>The conversion to boolean that \<^verbatim>\<open>if (v)\<close>, \<^verbatim>\<open>!v\<close>, \<^verbatim>\<open>a && b\<close> and \<^verbatim>\<open>a || b\<close> apply.\<close>

fun truthy :: "js \<Rightarrow> bool" where
  "truthy JUndefined = False"
| "truthy JNull = False"
| "truthy (JBool b) = b"
| "truthy (JNum n) = (n \<noteq> 0)"
| "truthy (JStr s) = (s \<noteq> [])"
| "truthy (JArr xs) = True"
| "truthy (JObj kvs) = True"

text \<open>
  Property access \<^verbatim>\<open>v.k\<close>, for the property names the relay reads (\<^verbatim>\<open>type\<close>, \<^verbatim>\<open>id\<close>,
  \<^verbatim>\<open>channel\<close>, \<^verbatim>\<open>message\<close>, \<^verbatim>\<open>data\<close>, \<^verbatim>\<open>result\<close>, \<^verbatim>\<open>error\<close>): it throws a TypeError on
  \<^verbatim>\<open>undefined\<close> and \<^verbatim>\<open>null\<close>, and booleans, numbers, strings and arrays have no property of
  these names.
\<close>

fun get_prop :: "js \<Rightarrow> string \<Rightarrow> js_exn + js" where
  "get_prop JUndefined k = Inl TypeError"
| "get_prop JNull k = Inl TypeError"
| "get_prop (JObj kvs) k = (case map_of kvs k of None \<Rightarrow> Inr JUndefined | Some v \<Rightarrow> Inr v)"
| "get_prop (JBool b) k = Inr JUndefined"
| "get_prop (JNum n) k = Inr JUndefined"
| "get_prop (JStr s) k = Inr JUndefined"
| "get_prop (JArr xs) k = Inr JUndefined"

text \<open>
  The conversion to a string that a template literal and \<^verbatim>\<open>new Error(v)\<close> apply. For an object
  it calls \<open>toString\<close> and then \<open>valueOf\<close>, and throws a TypeError when neither gives a primitive
  value. In a parsed frame no property is callable and the inherited \<open>valueOf\<close> returns the
  object itself, so the conversion of an object throws exactly when the object has a property
  \<open>toString\<close> of its own, which hides the inherited method. The \<open>toString\<close> of an array joins the
  conversions of its elements (none for \<^verbatim>\<open>null\<close> and \<^verbatim>\<open>undefined\<close>), so it throws when the conversion
  of an element does.
\<close>

fun to_string_throws :: "js \<Rightarrow> bool" where
  "to_string_throws (JObj kvs) = (map_of kvs ''toString'' \<noteq> None)"
| "to_string_throws (JArr xs) = (\<exists>x \<in> set xs. to_string_throws x)"
| "to_string_throws JUndefined = False"
| "to_string_throws JNull = False"
| "to_string_throws (JBool b) = False"
| "to_string_throws (JNum n) = False"
| "to_string_throws (JStr s) = False"

text \<open>\<^verbatim>\<open>a || b\<close>\<close>

definition js_or :: "js \<Rightarrow> js \<Rightarrow> js" where
  "js_or a b = (if truthy a then a else b)"


section \<open>The relay client (utils/websocket.ts)\<close>

subsection \<open>State\<close>

datatype ready_state = CONNECTING | OPEN | CLOSING | CLOSED

text \<open>The \<^verbatim>\<open>Error\<close> objects the client creates, named by their message.\<close>

datatype error =
    Error_NotConnectedAttempting
      \<comment> \<open>"Not connected to WebSocket server. Attempting to connect..."\<close>
  | Error_MustJoinChannel
      \<comment> \<open>"Must join a channel before sending commands. Use auto_connect or join_channel."\<close>
  | Error_TimedOut
      \<comment> \<open>"Request to Figma timed out"\<close>
  | Error_ConnectionClosed
      \<comment> \<open>"Connection closed"\<close>
  | Error_NotConnected
      \<comment> \<open>"Not connected to WebSocket server"\<close>
  | Error_FromFigma js
      \<comment> \<open>\<^verbatim>\<open>new Error(myResponse.error)\<close>\<close>

datatype settlement = Resolved js | Rejected error

text \<open>
  A \<^verbatim>\<open>PendingRequest\<close>: the \<^verbatim>\<open>resolve\<close> and \<^verbatim>\<open>reject\<close> callbacks of one promise (the field
  \<open>promise\<close> names that promise), the handle of its active timer, and the last activity.
\<close>

record pending_request =
  promise :: nat
  timeout :: nat
  lastActivity :: int

text \<open>The callbacks given to \<^verbatim>\<open>setTimeout\<close>, with the variables each closure captures.\<close>

datatype timer_action =
    ConnectionTimeout
      \<comment> \<open>connectToFigma, 10000 ms\<close>
  | TryAutoConnect
      \<comment> \<open>the open handler, 1000 ms\<close>
  | Reconnect
      \<comment> \<open>the close handler, after the backoff\<close>
  | RequestTimeout string nat
      \<comment> \<open>sendCommandToFigma: the request id and the promise whose \<^verbatim>\<open>reject\<close> it holds\<close>
  | ProgressTimeout string nat
      \<comment> \<open>the progress branch: \<^verbatim>\<open>requestId\<close> and the promise of the captured \<^verbatim>\<open>request\<close>\<close>

record socket =
  readyState :: ready_state
  connectionTimeout :: nat

text \<open>
  The module's variables (\<open>ws\<close>, \<open>currentChannel\<close>, \<open>autoConnectEnabled\<close>,
  \<open>pendingRequests\<close>), the server module's \<open>currentChannel\<close> that \<^verbatim>\<open>setServerCurrentChannel\<close>
  writes, and what the code does to its environment: the active timers (handle, deadline and
  callback; \<open>next_timer\<close> is the next handle \<^verbatim>\<open>setTimeout\<close> returns), the clock \<open>now\<close> read by
  \<^verbatim>\<open>Date.now()\<close> (times and delays are in milliseconds), the calls of \<^verbatim>\<open>resolve\<close> and \<^verbatim>\<open>reject\<close> in order (\<open>settled\<close>), and the
  request objects serialized and given to \<^verbatim>\<open>ws.send\<close> in order (\<open>sent\<close>). \<open>pendingRequests\<close> is a JavaScript
  \<^verbatim>\<open>Map\<close>: an association list in insertion order.
\<close>

record client =
  ws :: "socket option"
  currentChannel :: "string option"
  autoConnectEnabled :: bool
  pendingRequests :: "(string \<times> pending_request) list"
  serverCurrentChannel :: "string option"
  timers :: "(nat \<times> int \<times> timer_action) list"
  next_timer :: nat
  next_promise :: nat
  now :: int
  settled :: "(nat \<times> settlement) list"
  sent :: "js list"

definition initial_client :: client where
  "initial_client =
     \<lparr> ws = None, currentChannel = None, autoConnectEnabled = True, pendingRequests = [],
       serverCurrentChannel = None, timers = [], next_timer = 0, next_promise = 0, now = 0,
       settled = [], sent = [] \<rparr>"

subsection \<open>Timers, promises and the table\<close>

text \<open>
  The timers of the runtime take a delay from 1 to 2147483647 ms (\<open>2\<^sup>3\<^sup>1 - 1\<close>); \<^verbatim>\<open>setTimeout\<close>
  sets any other delay to 1 ms.
\<close>

definition timer_delay :: "int \<Rightarrow> int" where
  "timer_delay delay = (if 1 \<le> delay \<and> delay \<le> 2147483647 then delay else 1)"

definition setTimeout :: "timer_action \<Rightarrow> int \<Rightarrow> client \<Rightarrow> nat \<times> client" where
  "setTimeout callback delay st =
     (next_timer st,
      st\<lparr> timers := timers st @ [(next_timer st, now st + timer_delay delay, callback)],
          next_timer := Suc (next_timer st) \<rparr>)"

definition clearTimeout :: "nat \<Rightarrow> client \<Rightarrow> client" where
  "clearTimeout h st = st\<lparr> timers := AList.delete h (timers st) \<rparr>"

definition resolve :: "nat \<Rightarrow> js \<Rightarrow> client \<Rightarrow> client" where
  "resolve p v st = st\<lparr> settled := settled st @ [(p, Resolved v)] \<rparr>"

definition reject :: "nat \<Rightarrow> error \<Rightarrow> client \<Rightarrow> client" where
  "reject p e st = st\<lparr> settled := settled st @ [(p, Rejected e)] \<rparr>"

text \<open>A promise settles once: its outcome is the first call of \<^verbatim>\<open>resolve\<close> or \<^verbatim>\<open>reject\<close>.\<close>

definition outcome :: "client \<Rightarrow> nat \<Rightarrow> settlement option" where
  "outcome st p = map_of (settled st) p"

definition pending_has :: "client \<Rightarrow> string \<Rightarrow> bool" where
  "pending_has st k = (map_of (pendingRequests st) k \<noteq> None)"

definition pending_delete :: "string \<Rightarrow> client \<Rightarrow> client" where
  "pending_delete k st = st\<lparr> pendingRequests := AList.delete k (pendingRequests st) \<rparr>"

definition pending_set :: "string \<Rightarrow> pending_request \<Rightarrow> client \<Rightarrow> client" where
  "pending_set k r st = st\<lparr> pendingRequests := AList.update k r (pendingRequests st) \<rparr>"

definition ws_is_open :: "client \<Rightarrow> bool" where
  "ws_is_open st = (case ws st of None \<Rightarrow> False | Some s \<Rightarrow> readyState s = OPEN)"

text \<open>\<^verbatim>\<open>!currentChannel\<close> is true for \<^verbatim>\<open>null\<close> and for the empty string.\<close>

definition channel_truthy :: "string option \<Rightarrow> bool" where
  "channel_truthy c = (case c of None \<Rightarrow> False | Some s \<Rightarrow> s \<noteq> [])"

subsection \<open>connectToFigma\<close>

text \<open>
  The port only selects the URL and is left out. \<^verbatim>\<open>new WebSocket\<close> on a well-formed URL
  does not throw, so the \<^verbatim>\<open>catch\<close> of connectToFigma is never entered. A socket replaced
  while closing has its listeners removed, so the listeners that run are those of \<open>ws\<close>.
\<close>

definition new_socket :: "client \<Rightarrow> client" where
  "new_socket st =
     (let (h, st1) = setTimeout ConnectionTimeout 10000 st
      in st1\<lparr> ws := Some \<lparr> readyState = CONNECTING, connectionTimeout = h \<rparr> \<rparr>)"

definition connectToFigma :: "client \<Rightarrow> client" where
  "connectToFigma st =
     (case ws st of
        None \<Rightarrow> new_socket st
      | Some s \<Rightarrow>
          if readyState s = OPEN then st
          else if readyState s = CONNECTING then st
          else new_socket (st\<lparr> ws := None \<rparr>))"

subsection \<open>sendCommandToFigma\<close>

text \<open>
  \<open>uuid\<close> is the value \<^verbatim>\<open>uuidv4()\<close> returns. \<open>params\<close> is the property list of the object the
  caller passes (every caller in the repository passes an object literal; the default is
  \<^verbatim>\<open>{}\<close>). The function returns the promise it created.
\<close>

definition build_request :: "string \<Rightarrow> (string \<times> js) list \<Rightarrow> string \<Rightarrow> client \<Rightarrow> js" where
  "build_request command params uuid st =
     JObj [ (''id'', JStr uuid),
            (''type'', JStr (if command = ''join'' then ''join'' else ''message'')),
            (''channel'',
               (if command = ''join''
                then (case map_of params ''channel'' of None \<Rightarrow> JUndefined | Some c \<Rightarrow> c)
                else (case currentChannel st of None \<Rightarrow> JNull | Some c \<Rightarrow> JStr c))),
            (''message'',
               JObj [ (''id'', JStr uuid),
                      (''command'', JStr command),
                      (''params'', JObj (AList.update ''commandId'' (JStr uuid) params)) ]) ]"

definition sendCommandToFigma ::
    "string \<Rightarrow> (string \<times> js) list \<Rightarrow> int \<Rightarrow> string \<Rightarrow> client \<Rightarrow> nat \<times> client" where
  "sendCommandToFigma command params timeoutMs uuid st0 =
     (let p = next_promise st0;
          st = st0\<lparr> next_promise := Suc p \<rparr>
      in if \<not> ws_is_open st then
           (p, reject p Error_NotConnectedAttempting (connectToFigma st))
         else if command \<noteq> ''join'' \<and> \<not> channel_truthy (currentChannel st) then
           (p, reject p Error_MustJoinChannel st)
         else
           let request = build_request command params uuid st;
               (h, st1) = setTimeout (RequestTimeout uuid p) timeoutMs st;
               st2 = pending_set uuid \<lparr> promise = p, timeout = h, lastActivity = now st1 \<rparr> st1
           in (p, st2\<lparr> sent := sent st2 @ [request] \<rparr>))"

subsection \<open>The message listener\<close>

text \<open>
  The progress branch (lines 90 to 111). \<^verbatim>\<open>json.message.data\<close> is read first and throws
  when \<^verbatim>\<open>json.message\<close> is absent or null; the exception is caught by the listener's
  \<^verbatim>\<open>catch\<close>, which only logs. The final log line can also throw, after the table was updated.
  A \<^verbatim>\<open>Map\<close> with string keys has no entry for a key that is not a string.
\<close>

definition handle_progress_update :: "js \<Rightarrow> client \<Rightarrow> client" where
  "handle_progress_update json st =
     (case get_prop json ''message'' of
        Inl e \<Rightarrow> st
      | Inr message \<Rightarrow>
     (case get_prop message ''data'' of
        Inl e \<Rightarrow> st
      | Inr progressData \<Rightarrow>
     (case get_prop json ''id'' of
        Inl e \<Rightarrow> st
      | Inr json_id \<Rightarrow>
     (case js_or json_id (JStr []) of
        JStr requestId \<Rightarrow>
          if requestId \<noteq> [] \<and> pending_has st requestId then
            (case map_of (pendingRequests st) requestId of
               None \<Rightarrow> st
             | Some request \<Rightarrow>
                 let st1 = clearTimeout (timeout request) st;
                     (h, st2) = setTimeout (ProgressTimeout requestId (promise request)) 120000 st1
                 in pending_set requestId
                      (request\<lparr> lastActivity := now st, timeout := h \<rparr>) st2)
          else st
      | other \<Rightarrow> st))))"

text \<open>
  Regular responses (lines 113 to 137). In the error branch the log line converts
  \<^verbatim>\<open>myResponse.error\<close> to a string (line 126). When that conversion throws, the timer of the
  request has been cleared, the promise is not settled and the entry is not deleted: the
  exception goes to the listener's \<^verbatim>\<open>catch\<close>, which only logs.
\<close>

definition handle_response :: "js \<Rightarrow> client \<Rightarrow> client" where
  "handle_response json st =
     (case get_prop json ''message'' of
        Inl e \<Rightarrow> st
      | Inr myResponse \<Rightarrow>
     (case get_prop myResponse ''id'' of
        Inl e \<Rightarrow> st
      | Inr response_id \<Rightarrow>
     (case get_prop myResponse ''result'' of
        Inl e \<Rightarrow> st
      | Inr response_result \<Rightarrow>
     (case get_prop myResponse ''error'' of
        Inl e \<Rightarrow> st
      | Inr response_error \<Rightarrow>
     (case response_id of
        JStr key \<Rightarrow>
          if truthy response_id \<and> pending_has st key \<and> truthy response_result then
            (case map_of (pendingRequests st) key of
               None \<Rightarrow> st
             | Some request \<Rightarrow>
                 let st1 = clearTimeout (timeout request) st
                 in if truthy response_error \<and> to_string_throws response_error then st1
                    else
                      let st2 = (if truthy response_error
                                 then reject (promise request) (Error_FromFigma response_error) st1
                                 else if truthy response_result
                                 then resolve (promise request) response_result st1
                                 else st1)
                      in pending_delete key st2)
          else st
      | other \<Rightarrow> st)))))"

text \<open>\<open>parsed\<close> is what \<^verbatim>\<open>JSON.parse(data)\<close> gives: a value, or the SyntaxError it throws.\<close>

definition ws_on_message :: "js_exn + js \<Rightarrow> client \<Rightarrow> client" where
  "ws_on_message parsed st =
     (case parsed of
        Inl e \<Rightarrow> st
      | Inr json \<Rightarrow>
          (case get_prop json ''type'' of
             Inl e \<Rightarrow> st
           | Inr ty \<Rightarrow>
               if ty = JStr ''progress_update'' then handle_progress_update json st
               else handle_response json st))"

subsection \<open>The open and close listeners\<close>

text \<open>\<open>connTimeout\<close> is the \<^verbatim>\<open>connectionTimeout\<close> the listener's closure captured.\<close>

definition ws_on_open :: "nat \<Rightarrow> client \<Rightarrow> client" where
  "ws_on_open connTimeout st =
     (let st1 = clearTimeout connTimeout st;
          st2 = st1\<lparr> currentChannel := None \<rparr>
      in if autoConnectEnabled st2 then snd (setTimeout TryAutoConnect 1000 st2) else st2)"

text \<open>
  The loop of the close listener over \<^verbatim>\<open>pendingRequests.entries()\<close>. The body deletes only
  the entry it is visiting, which does not disturb the iteration of a \<^verbatim>\<open>Map\<close>, so the
  entries visited are those present when the loop starts.
\<close>

fun reject_all :: "(string \<times> pending_request) list \<Rightarrow> client \<Rightarrow> client" where
  "reject_all [] st = st"
| "reject_all ((k, request) # rest) st =
     reject_all rest
       (pending_delete k
          (reject (promise request) Error_ConnectionClosed
             (clearTimeout (timeout request) st)))"

text \<open>
  \<open>backoff\<close> is \<^verbatim>\<open>Math.min(30000, reconnectInterval * Math.pow(1.5, Math.floor(Math.random() * 5)))\<close>,
  chosen by the environment.
\<close>

definition ws_on_close :: "nat \<Rightarrow> int \<Rightarrow> client \<Rightarrow> client" where
  "ws_on_close connTimeout backoff st =
     (let st1 = clearTimeout connTimeout st;
          st2 = st1\<lparr> ws := None \<rparr>;
          st3 = reject_all (pendingRequests st2) st2
      in snd (setTimeout Reconnect backoff st3))"

text \<open>The events of the socket \<open>ws\<close>: the transport changes \<open>readyState\<close>, then the listener runs.\<close>

definition ws_open_event :: "client \<Rightarrow> client" where
  "ws_open_event st =
     (case ws st of
        None \<Rightarrow> st
      | Some s \<Rightarrow> ws_on_open (connectionTimeout s) (st\<lparr> ws := Some (s\<lparr> readyState := OPEN \<rparr>) \<rparr>))"

definition ws_close_event :: "int \<Rightarrow> client \<Rightarrow> client" where
  "ws_close_event backoff st =
     (case ws st of
        None \<Rightarrow> st
      | Some s \<Rightarrow>
          ws_on_close (connectionTimeout s) backoff (st\<lparr> ws := Some (s\<lparr> readyState := CLOSED \<rparr>) \<rparr>))"

text \<open>The closing handshake of the socket starts: no listener runs yet.\<close>

definition ws_closing_event :: "client \<Rightarrow> client" where
  "ws_closing_event st =
     (case ws st of
        None \<Rightarrow> st
      | Some s \<Rightarrow> st\<lparr> ws := Some (s\<lparr> readyState := CLOSING \<rparr>) \<rparr>)"

definition advance :: "int \<Rightarrow> client \<Rightarrow> client" where
  "advance ms st = st\<lparr> now := now st + ms \<rparr>"

subsection \<open>joinChannel, autoConnect, disconnect, status\<close>

text \<open>
  An \<^verbatim>\<open>async\<close> function runs to its first \<^verbatim>\<open>await\<close> and is resumed with the settlement of
  the promise it awaits. Each such function has two parts here: the first runs to the
  \<^verbatim>\<open>await\<close> and names the promise awaited, the second takes that promise's settlement.
\<close>

text \<open>joinChannel throws before its \<^verbatim>\<open>await\<close> (\<open>Inl\<close>) or awaits the promise of the join command.\<close>

definition joinChannel :: "string \<Rightarrow> string \<Rightarrow> client \<Rightarrow> (error + nat) \<times> client" where
  "joinChannel channelName uuid st =
     (if \<not> ws_is_open st then (Inl Error_NotConnected, st)
      else let (p, st1) = sendCommandToFigma ''join'' [(''channel'', JStr channelName)] 60000 uuid st
           in (Inr p, st1))"

definition joinChannel_resume :: "string \<Rightarrow> settlement \<Rightarrow> client \<Rightarrow> (error + unit) \<times> client" where
  "joinChannel_resume channelName s st =
     (case s of
        Resolved v \<Rightarrow>
          (Inr (), st\<lparr> currentChannel := Some channelName,
                       serverCurrentChannel := Some channelName \<rparr>)
      | Rejected e \<Rightarrow> (Inl e, st))"

datatype 'a async = Returned 'a | Awaiting nat

datatype message_text =
    Msg_NoPlugins
      \<comment> \<open>"No Figma plugins connected. Please run the Figma plugin first."\<close>
  | Msg_AlreadyConnected string
      \<comment> \<open>"Already connected to channel: ..."\<close>
  | Msg_Connected string
      \<comment> \<open>"Connected to channel: ..."\<close>
  | Msg_FailedToConnect error
      \<comment> \<open>"Failed to connect: " and the error's message\<close>
  | Msg_MultipleChannels "string list"
      \<comment> \<open>"Multiple channels available. Please use join_channel with one of: ..."\<close>
  | Msg_NotConnectedToAnyChannel
      \<comment> \<open>"Not connected to any channel"\<close>
  | Msg_Disconnected string
      \<comment> \<open>"Disconnected from channel: ..."\<close>

record connect_result =
  success :: bool
  channel :: "string option"
  message :: message_text
  availableChannels :: "string list option"

text \<open>The value of \<open>currentChannel\<close> when it is truthy.\<close>

definition joined_channel :: "client \<Rightarrow> string option" where
  "joined_channel st = (if channel_truthy (currentChannel st) then currentChannel st else None)"

text \<open>
  \<open>channels\<close> is what \<^verbatim>\<open>getActiveChannels()\<close> returns when the function is called. The
  first part runs to the \<^verbatim>\<open>await joinChannel(channels[0])\<close>; joinChannel either throws
  before its own \<^verbatim>\<open>await\<close> or suspends.
\<close>

definition autoConnect ::
    "string list \<Rightarrow> string \<Rightarrow> client \<Rightarrow> connect_result async \<times> client" where
  "autoConnect channels uuid st =
     (if length channels = 0 then
        (Returned \<lparr> success = False, channel = None, message = Msg_NoPlugins,
                    availableChannels = None \<rparr>, st)
      else
     (case joined_channel st of
        Some c \<Rightarrow>
          (Returned \<lparr> success = True, channel = Some c, message = Msg_AlreadyConnected c,
                      availableChannels = None \<rparr>, st)
      | None \<Rightarrow>
     (case channels of
        [c0] \<Rightarrow>
          (case joinChannel c0 uuid st of
             (Inl e, st1) \<Rightarrow>
               (Returned \<lparr> success = False, channel = None, message = Msg_FailedToConnect e,
                           availableChannels = None \<rparr>, st1)
           | (Inr p, st1) \<Rightarrow> (Awaiting p, st1))
      | cs \<Rightarrow>
          (Returned \<lparr> success = False, channel = None, message = Msg_MultipleChannels cs,
                      availableChannels = Some cs \<rparr>, st))))"


text \<open>tryAutoConnect, which the open listener schedules; a failed join is only logged.\<close>

definition tryAutoConnect :: "string list \<Rightarrow> string \<Rightarrow> client \<Rightarrow> unit async \<times> client" where
  "tryAutoConnect channels uuid st =
     (if length channels = 0 then (Returned (), st)
      else if length channels = 1 \<and> \<not> channel_truthy (currentChannel st) then
        (case channels of
           [c0] \<Rightarrow>
             (case joinChannel c0 uuid st of
                (Inl e, st1) \<Rightarrow> (Returned (), st1)
              | (Inr p, st1) \<Rightarrow> (Awaiting p, st1))
         | cs \<Rightarrow> (Returned (), st))
      else (Returned (), st))"

definition tryAutoConnect_resume :: "string \<Rightarrow> settlement \<Rightarrow> client \<Rightarrow> client" where
  "tryAutoConnect_resume c0 s st = snd (joinChannel_resume c0 s st)"

definition disconnect :: "client \<Rightarrow> connect_result \<times> client" where
  "disconnect st =
     (case joined_channel st of
        None \<Rightarrow>
          (\<lparr> success = False, channel = None, message = Msg_NotConnectedToAnyChannel,
             availableChannels = None \<rparr>, st)
      | Some previousChannel \<Rightarrow>
          (\<lparr> success = True, channel = None, message = Msg_Disconnected previousChannel,
             availableChannels = None \<rparr>,
           st\<lparr> currentChannel := None, serverCurrentChannel := None \<rparr>))"

definition getCurrentChannel :: "client \<Rightarrow> string option" where
  "getCurrentChannel st = currentChannel st"

text \<open>
  getConnectionStatus; \<open>running\<close>, \<open>channels\<close> and \<open>server_stats\<close> are what the server module's
  \<^verbatim>\<open>isServerRunning()\<close>, \<^verbatim>\<open>getActiveChannels()\<close> and \<^verbatim>\<open>getServerStats()\<close> return.
\<close>

record 'a connection_status =
  status_serverRunning :: bool
  status_connected :: bool
  status_currentChannel :: "string option"
  status_availableChannels :: "string list"
  status_stats :: 'a

definition getConnectionStatus :: "bool \<Rightarrow> string list \<Rightarrow> 'a \<Rightarrow> client \<Rightarrow> 'a connection_status" where
  "getConnectionStatus running channels server_stats st =
     \<lparr> status_serverRunning = running,
       status_connected = (currentChannel st \<noteq> None),
       status_currentChannel = currentChannel st,
       status_availableChannels = channels,
       status_stats = server_stats \<rparr>"

definition setAutoConnect :: "bool \<Rightarrow> client \<Rightarrow> client" where
  "setAutoConnect enabled st = st\<lparr> autoConnectEnabled := enabled \<rparr>"

subsection \<open>Timers firing\<close>

text \<open>
  A timer fires once, at or after its deadline, and only while it is active. \<open>channels\<close> and
  \<open>uuid\<close> are what \<^verbatim>\<open>getActiveChannels()\<close> and \<^verbatim>\<open>uuidv4()\<close> return if the callback calls them.
  \<^verbatim>\<open>ws.terminate()\<close> starts the closing of the socket.
\<close>

definition request_timed_out :: "string \<Rightarrow> nat \<Rightarrow> client \<Rightarrow> client" where
  "request_timed_out k p st =
     (if pending_has st k then reject p Error_TimedOut (pending_delete k st) else st)"

definition run_callback :: "timer_action \<Rightarrow> string list \<Rightarrow> string \<Rightarrow> client \<Rightarrow> client" where
  "run_callback callback channels uuid st =
     (case callback of
        ConnectionTimeout \<Rightarrow>
          (case ws st of
             None \<Rightarrow> st
           | Some s \<Rightarrow>
               if readyState s = CONNECTING then st\<lparr> ws := Some (s\<lparr> readyState := CLOSING \<rparr>) \<rparr>
               else st)
      | TryAutoConnect \<Rightarrow> snd (tryAutoConnect channels uuid st)
      | Reconnect \<Rightarrow> connectToFigma st
      | RequestTimeout k p \<Rightarrow> request_timed_out k p st
      | ProgressTimeout k p \<Rightarrow> request_timed_out k p st)"

definition fire_timer :: "nat \<Rightarrow> string list \<Rightarrow> string \<Rightarrow> client \<Rightarrow> client" where
  "fire_timer h channels uuid st =
     (case map_of (timers st) h of
        None \<Rightarrow> st
      | Some (deadline, callback) \<Rightarrow>
          if now st < deadline then st
          else run_callback callback channels uuid (clearTimeout h st))"

section \<open>The relay server (utils/websocket-server.ts)\<close>

subsection \<open>State\<close>

text \<open>
  The keys of the \<^verbatim>\<open>channels\<close> map are whatever \<^verbatim>\<open>data.channel\<close> was. A \<^verbatim>\<open>Map\<close> compares
  primitive keys by value and arrays and objects by reference; every parsed frame has new
  objects, so an array or object \<open>v\<close> used as a channel name is the key \<open>Ref n v\<close>, with \<open>n\<close>
  taken from a counter of the state.
\<close>

datatype chan_key = Prim js | Ref nat js

fun name_of :: "chan_key \<Rightarrow> js" where
  "name_of (Prim v) = v"
| "name_of (Ref n v) = v"

text \<open>The texts of the error envelopes.\<close>

datatype error_text =
    Err_ChannelNameRequired
      \<comment> \<open>"Channel name is required"\<close>
  | Err_MustJoinFirst
      \<comment> \<open>"You must join the channel first"\<close>
  | Err_Processing js_exn
      \<comment> \<open>"Error processing message: " and the exception's message\<close>

text \<open>The objects the server serializes and sends, one constructor for each object literal.\<close>

datatype envelope =
    Env_Welcome
      \<comment> \<open>\<^verbatim>\<open>{type: "system", message: "Connected to Figma MCP server"}\<close>\<close>
  | Env_Error error_text
      \<comment> \<open>\<^verbatim>\<open>{type: "error", message: ...}\<close>\<close>
  | Env_JoinConfirmation js js
      \<comment> \<open>\<^verbatim>\<open>{type: "system", message: {id: data.id, result: "Connected to channel: ..."}, channel}\<close>:
          \<^verbatim>\<open>data.id\<close> and the channel name\<close>
  | Env_JoinNotice js
      \<comment> \<open>\<^verbatim>\<open>{type: "system", message: "A new client has joined the channel", channel}\<close>\<close>
  | Env_Broadcast js js
      \<comment> \<open>\<^verbatim>\<open>{type: "broadcast", message: data.message, channel}\<close>: the payload and the channel name\<close>
  | Env_Forward js
      \<comment> \<open>a \<^verbatim>\<open>progress_update\<close> frame, sent on as it is\<close>

record stats =
  totalConnections :: int
  activeConnections :: int
  messagesSent :: int
  messagesReceived :: int
  errors :: int

text \<open>
  A connection is a number. \<open>channels\<close> is a \<^verbatim>\<open>Map\<close> of \<^verbatim>\<open>Set\<close>s, both in insertion order.
  \<open>conn_readyState\<close> is the \<^verbatim>\<open>readyState\<close> of each connection, which the transport changes;
  \<open>outbox\<close> is the calls of \<^verbatim>\<open>send\<close> in order, each with the connection written to. A call
  of \<^verbatim>\<open>send\<close> reports a dropped frame through its return value and does not throw.
\<close>

record server =
  channels :: "(chan_key \<times> nat list) list"
  wsServer :: bool
  server_currentChannel :: "string option"
  server_stats :: stats
  conn_readyState :: "(nat \<times> ready_state) list"
  outbox :: "(nat \<times> envelope) list"
  next_ref :: nat

definition initial_server :: server where
  "initial_server =
     \<lparr> channels = [], wsServer = False, server_currentChannel = None,
       server_stats = \<lparr> totalConnections = 0, activeConnections = 0, messagesSent = 0,
                        messagesReceived = 0, errors = 0 \<rparr>,
       conn_readyState = [], outbox = [], next_ref = 0 \<rparr>"

definition send :: "nat \<Rightarrow> envelope \<Rightarrow> server \<Rightarrow> server" where
  "send conn env sv = sv\<lparr> outbox := outbox sv @ [(conn, env)] \<rparr>"

definition count_sent :: "server \<Rightarrow> server" where
  "count_sent sv = sv\<lparr> server_stats := (server_stats sv)\<lparr> messagesSent := messagesSent (server_stats sv) + 1 \<rparr> \<rparr>"

definition count_error :: "server \<Rightarrow> server" where
  "count_error sv = sv\<lparr> server_stats := (server_stats sv)\<lparr> errors := errors (server_stats sv) + 1 \<rparr> \<rparr>"

definition count_received :: "server \<Rightarrow> server" where
  "count_received sv =
     sv\<lparr> server_stats := (server_stats sv)\<lparr> messagesReceived := messagesReceived (server_stats sv) + 1 \<rparr> \<rparr>"

definition is_open :: "server \<Rightarrow> nat \<Rightarrow> bool" where
  "is_open sv conn = (map_of (conn_readyState sv) conn = Some OPEN)"

definition key_of :: "js \<Rightarrow> server \<Rightarrow> chan_key" where
  "key_of v sv = (case v of JArr xs \<Rightarrow> Ref (next_ref sv) v | JObj kvs \<Rightarrow> Ref (next_ref sv) v | other \<Rightarrow> Prim v)"

definition members :: "server \<Rightarrow> chan_key \<Rightarrow> nat list" where
  "members sv k = (case map_of (channels sv) k of None \<Rightarrow> [] | Some clients \<Rightarrow> clients)"

subsection \<open>Queries\<close>


definition getChannelClientCount :: "chan_key \<Rightarrow> server \<Rightarrow> nat" where
  "getChannelClientCount channelName sv =
     (case map_of (channels sv) channelName of None \<Rightarrow> 0 | Some clients \<Rightarrow> length clients)"

definition isServerRunning :: "server \<Rightarrow> bool" where
  "isServerRunning sv = wsServer sv"

subsection \<open>broadcastToChannel\<close>

fun broadcast_loop :: "envelope \<Rightarrow> nat option \<Rightarrow> nat list \<Rightarrow> server \<Rightarrow> server" where
  "broadcast_loop env excludeClient [] sv = sv"
| "broadcast_loop env excludeClient (client # rest) sv =
     broadcast_loop env excludeClient rest
       (if Some client \<noteq> excludeClient \<and> is_open sv client
        then count_sent (send client env sv)
        else sv)"

definition broadcastToChannel :: "chan_key \<Rightarrow> envelope \<Rightarrow> nat option \<Rightarrow> server \<Rightarrow> server" where
  "broadcastToChannel channelName env excludeClient sv =
     (case map_of (channels sv) channelName of
        None \<Rightarrow> sv
      | Some clients \<Rightarrow> broadcast_loop env excludeClient clients sv)"

subsection \<open>The websocket handlers\<close>

text \<open>\<open>open\<close>: the transport has made the connection \<open>conn\<close>, in state OPEN.\<close>

definition srv_open :: "nat \<Rightarrow> server \<Rightarrow> server" where
  "srv_open conn sv0 =
     (let sv = sv0\<lparr> conn_readyState := AList.update conn OPEN (conn_readyState sv0) \<rparr>;
          sv1 = sv\<lparr> server_stats := (server_stats sv)
                   \<lparr> totalConnections := totalConnections (server_stats sv) + 1,
                     activeConnections := activeConnections (server_stats sv) + 1 \<rparr> \<rparr>
      in send conn Env_Welcome sv1)"

text \<open>The \<^verbatim>\<open>catch\<close> of the message handler.\<close>

definition handler_failed :: "nat \<Rightarrow> js_exn \<Rightarrow> server \<Rightarrow> server" where
  "handler_failed conn err sv = send conn (Env_Error (Err_Processing err)) (count_error sv)"

text \<open>\<^verbatim>\<open>Set.add\<close>\<close>

definition set_add :: "nat \<Rightarrow> nat list \<Rightarrow> nat list" where
  "set_add x xs = (if x \<in> set xs then xs else xs @ [x])"

text \<open>
  The join branch (lines 135 to 166). The two log lines convert the channel name to a string
  (lines 144 and 148), which throws for a name that cannot be converted: the first one after
  the new channel has been stored with an empty set, the second one after the connection has
  been added. The exception goes to the \<^verbatim>\<open>catch\<close> of the handler.
\<close>

definition handle_join :: "nat \<Rightarrow> js \<Rightarrow> server \<Rightarrow> server" where
  "handle_join conn data sv0 =
     (case get_prop data ''channel'' of
        Inl e \<Rightarrow> sv0
      | Inr channelName \<Rightarrow>
          if \<not> truthy channelName then send conn (Env_Error Err_ChannelNameRequired) sv0
          else
            let k = key_of channelName sv0;
                sv = sv0\<lparr> next_ref := Suc (next_ref sv0) \<rparr>;
                created = (map_of (channels sv) k = None);
                sv1 = (if created
                       then sv\<lparr> channels := AList.update k [] (channels sv) \<rparr>
                       else sv)
            in if created \<and> to_string_throws channelName then handler_failed conn TypeError sv1
               else
                 let sv2 = sv1\<lparr> channels := AList.update k (set_add conn (members sv1 k)) (channels sv1) \<rparr>
                 in if to_string_throws channelName then handler_failed conn TypeError sv2
                    else
                      let data_id = (case get_prop data ''id'' of Inl e \<Rightarrow> JUndefined | Inr v \<Rightarrow> v);
                          sv3 = count_sent (send conn (Env_JoinConfirmation data_id channelName) sv2)
                      in broadcastToChannel k (Env_JoinNotice channelName) (Some conn) sv3)"

definition handle_message :: "nat \<Rightarrow> js \<Rightarrow> server \<Rightarrow> server" where
  "handle_message conn data sv0 =
     (case get_prop data ''channel'' of
        Inl e \<Rightarrow> sv0
      | Inr channelName \<Rightarrow>
          if \<not> truthy channelName then send conn (Env_Error Err_ChannelNameRequired) sv0
          else
            let k = key_of channelName sv0;
                sv = sv0\<lparr> next_ref := Suc (next_ref sv0) \<rparr>
            in if conn \<notin> set (members sv k) then send conn (Env_Error Err_MustJoinFirst) sv
               else
                 let payload = (case get_prop data ''message'' of Inl e \<Rightarrow> JUndefined | Inr v \<Rightarrow> v)
                 in broadcastToChannel k (Env_Broadcast payload channelName) None sv)"

definition handle_progress :: "nat \<Rightarrow> js \<Rightarrow> server \<Rightarrow> server" where
  "handle_progress conn data sv0 =
     (case get_prop data ''channel'' of
        Inl e \<Rightarrow> sv0
      | Inr channelName \<Rightarrow>
          let k = key_of channelName sv0;
              sv = sv0\<lparr> next_ref := Suc (next_ref sv0) \<rparr>
          in if map_of (channels sv) k = None then sv
             else broadcastToChannel k (Env_Forward data) None sv)"

text \<open>
  \<open>message\<close>: \<open>parsed\<close> is what \<^verbatim>\<open>JSON.parse(message)\<close> gives, a value or the SyntaxError it
  throws. A frame whose \<^verbatim>\<open>type\<close> is none of the three handled falls through every \<^verbatim>\<open>if\<close>.
\<close>

definition srv_message :: "nat \<Rightarrow> js_exn + js \<Rightarrow> server \<Rightarrow> server" where
  "srv_message conn parsed sv0 =
     (let sv = count_received sv0
      in case parsed of
           Inl err \<Rightarrow> handler_failed conn err sv
         | Inr data \<Rightarrow>
             (case get_prop data ''type'' of
                Inl err \<Rightarrow> handler_failed conn err sv
              | Inr ty \<Rightarrow>
                  if ty = JStr ''join'' then handle_join conn data sv
                  else if ty = JStr ''message'' then handle_message conn data sv
                  else if ty = JStr ''progress_update'' then handle_progress conn data sv
                  else sv))"

text \<open>
  The loop of the close handler over the channels: the connection is deleted from each set
  that has it, and a channel whose set becomes empty is deleted. Deleting the entry being
  visited does not disturb \<^verbatim>\<open>forEach\<close>. The log line that follows the deletion of the
  connection converts the channel name to a string (line 216); when that throws, the
  connection has been deleted from that set, the loop stops there, and the exception leaves
  the handler (\<open>leave_throws\<close>).
\<close>

fun leave_all :: "nat \<Rightarrow> (chan_key \<times> nat list) list \<Rightarrow> (chan_key \<times> nat list) list" where
  "leave_all conn [] = []"
| "leave_all conn ((channelName, clients) # rest) =
     (if conn \<in> set clients then
        (if to_string_throws (name_of channelName) then (channelName, removeAll conn clients) # rest
         else if removeAll conn clients = [] then leave_all conn rest
         else (channelName, removeAll conn clients) # leave_all conn rest)
      else (channelName, clients) # leave_all conn rest)"

fun leave_throws :: "nat \<Rightarrow> (chan_key \<times> nat list) list \<Rightarrow> bool" where
  "leave_throws conn [] = False"
| "leave_throws conn ((channelName, clients) # rest) =
     (if conn \<in> set clients then to_string_throws (name_of channelName) \<or> leave_throws conn rest
      else leave_throws conn rest)"

text \<open>
  \<open>close\<close>: the transport has closed the connection \<open>conn\<close>. The counter of active connections
  is decremented after the loop, so not when the loop throws.
\<close>

definition srv_close :: "nat \<Rightarrow> server \<Rightarrow> server" where
  "srv_close conn sv0 =
     (let sv = sv0\<lparr> conn_readyState := AList.update conn CLOSED (conn_readyState sv0) \<rparr>;
          sv1 = sv\<lparr> channels := leave_all conn (channels sv) \<rparr>
      in if leave_throws conn (channels sv) then sv1
         else sv1\<lparr> server_stats := (server_stats sv1)
                    \<lparr> activeConnections := activeConnections (server_stats sv1) - 1 \<rparr> \<rparr>)"

text \<open>The transport changes the \<^verbatim>\<open>readyState\<close> of a connection (a closing handshake starts).\<close>

definition srv_readyState_changed :: "nat \<Rightarrow> ready_state \<Rightarrow> server \<Rightarrow> server" where
  "srv_readyState_changed conn rs sv = sv\<lparr> conn_readyState := AList.update conn rs (conn_readyState sv) \<rparr>"

text \<open>\<open>ok\<close> says whether \<^verbatim>\<open>Bun.serve\<close> returned a server.\<close>

definition startWebSocketServer :: "bool \<Rightarrow> server \<Rightarrow> server" where
  "startWebSocketServer ok sv = (if wsServer sv then sv else sv\<lparr> wsServer := ok \<rparr>)"

definition stopWebSocketServer :: "server \<Rightarrow> server" where
  "stopWebSocketServer sv =
     (if wsServer sv
      then sv\<lparr> wsServer := False, channels := [], server_currentChannel := None \<rparr>
      else sv)"

definition setCurrentChannel :: "string option \<Rightarrow> server \<Rightarrow> server" where
  "setCurrentChannel c sv = sv\<lparr> server_currentChannel := c \<rparr>"

section \<open>Runs\<close>

subsection \<open>Runs of the client\<close>

text \<open>
  What can happen to the client module: a call of one of its exported functions, an event
  of its socket (the error listener only logs), the close of a socket that connectToFigma
  has replaced while it was closing (its listeners were removed, so none runs), a timer
  firing, a suspended joinChannel resuming once the promise it awaits has settled
  (autoConnect and tryAutoConnect change no state after that), time passing. A run is a list of such events from the initial state.
  Nothing restricts the order of events, so the runs include every run of the program.
\<close>

datatype client_event =
    Call_connectToFigma
  | Call_sendCommandToFigma string "(string \<times> js) list" int string
  | Call_joinChannel string string
  | Resume_joinChannel string nat
  | Call_autoConnect "string list" string
  | Call_disconnect
  | Call_setAutoConnect bool
  | Ws_open
  | Ws_message "js_exn + js"
  | Ws_closing
  | Ws_close int
  | Dropped_socket_closes
  | Timer_fires nat "string list" string
  | Time_passes int

fun client_step :: "client_event \<Rightarrow> client \<Rightarrow> client" where
  "client_step Call_connectToFigma st = connectToFigma st"
| "client_step (Call_sendCommandToFigma command params timeoutMs uuid) st =
     snd (sendCommandToFigma command params timeoutMs uuid st)"
| "client_step (Call_joinChannel channelName uuid) st = snd (joinChannel channelName uuid st)"
| "client_step (Resume_joinChannel channelName p) st =
     (case outcome st p of
        None \<Rightarrow> st
      | Some s \<Rightarrow> snd (joinChannel_resume channelName s st))"
| "client_step (Call_autoConnect chans uuid) st = snd (autoConnect chans uuid st)"
| "client_step Call_disconnect st = snd (disconnect st)"
| "client_step (Call_setAutoConnect enabled) st = setAutoConnect enabled st"
| "client_step Ws_open st = ws_open_event st"
| "client_step (Ws_message parsed) st = ws_on_message parsed st"
| "client_step Ws_closing st = ws_closing_event st"
| "client_step (Ws_close backoff) st = ws_close_event backoff st"
| "client_step Dropped_socket_closes st = st"
| "client_step (Timer_fires h chans uuid) st = fire_timer h chans uuid st"
| "client_step (Time_passes ms) st = advance ms st"

definition client_run :: "client_event list \<Rightarrow> client" where
  "client_run evs = foldl (\<lambda>st e. client_step e st) initial_client evs"

text \<open>
  Handles come from a counter: every active timer, and the timer of every pending request,
  has a handle that \<^verbatim>\<open>setTimeout\<close> has already returned.
\<close>

definition handles_allocated :: "client \<Rightarrow> bool" where
  "handles_allocated st \<longleftrightarrow>
     (\<forall>(h, t) \<in> set (timers st). h < next_timer st) \<and>
     (\<forall>(k, r) \<in> set (pendingRequests st). timeout r < next_timer st)"

text \<open>
  Promises come from a counter too. \<open>owner st p k\<close>: an entry that holds the promise \<open>p\<close> is the
  entry of the id \<open>k\<close>. A timeout callback carries a promise already created, whose entry (if
  there is one) is the entry of the callback's id. An entry holds a promise already created
  and not yet settled, is the only entry of that promise, and the timer it names, while
  active, is a timeout of this very request.
\<close>

definition owner :: "client \<Rightarrow> nat \<Rightarrow> string \<Rightarrow> bool" where
  "owner st p k \<longleftrightarrow> (\<forall>(k', r') \<in> set (pendingRequests st). promise r' = p \<longrightarrow> k' = k)"

fun action_ok :: "client \<Rightarrow> timer_action \<Rightarrow> bool" where
  "action_ok st (RequestTimeout k p) = (p < next_promise st \<and> owner st p k)"
| "action_ok st (ProgressTimeout k p) = (p < next_promise st \<and> owner st p k)"
| "action_ok st ConnectionTimeout = True"
| "action_ok st TryAutoConnect = True"
| "action_ok st Reconnect = True"

definition entry_ok :: "client \<Rightarrow> string \<Rightarrow> pending_request \<Rightarrow> bool" where
  "entry_ok st k r \<longleftrightarrow>
     promise r < next_promise st \<and>
     promise r \<notin> fst ` set (settled st) \<and>
     owner st (promise r) k \<and>
     (\<forall>(h, d, a) \<in> set (timers st).
        h = timeout r \<longrightarrow> a = RequestTimeout k (promise r) \<or> a = ProgressTimeout k (promise r))"

definition promises_ok :: "client \<Rightarrow> bool" where
  "promises_ok st \<longleftrightarrow>
     (\<forall>(p, s) \<in> set (settled st). p < next_promise st) \<and>
     (\<forall>(h, d, a) \<in> set (timers st). action_ok st a) \<and>
     (\<forall>(k, r) \<in> set (pendingRequests st). entry_ok st k r)"

text \<open>
  The table has one entry for an id, and the connection timer of the socket is no timer of
  an entry.
\<close>

definition timers_apart :: "client \<Rightarrow> bool" where
  "timers_apart st \<longleftrightarrow>
     distinct (map fst (pendingRequests st)) \<and>
     (case ws st of
        None \<Rightarrow> True
      | Some s \<Rightarrow>
          connectionTimeout s < next_timer st \<and>
          (\<forall>(k, r) \<in> set (pendingRequests st). timeout r \<noteq> connectionTimeout s))"

text \<open>
  The request of a timeout callback. An id is in use while the table has an entry for it or an
  active timer is a timeout of it; \<^verbatim>\<open>uuidv4()\<close> returns an id that is not in use.
\<close>

fun action_id :: "timer_action \<Rightarrow> string option" where
  "action_id (RequestTimeout k p) = Some k"
| "action_id (ProgressTimeout k p) = Some k"
| "action_id ConnectionTimeout = None"
| "action_id TryAutoConnect = None"
| "action_id Reconnect = None"

definition id_in_use :: "client \<Rightarrow> string \<Rightarrow> bool" where
  "id_in_use st k \<longleftrightarrow>
     pending_has st k \<or> (\<exists>(h, d, a) \<in> set (timers st). action_id a = Some k)"

text \<open>
  The id that an event takes from \<^verbatim>\<open>uuidv4()\<close>, if it creates a request.
\<close>

fun event_uuid :: "client_event \<Rightarrow> string option" where
  "event_uuid (Call_sendCommandToFigma command params timeoutMs uuid) = Some uuid"
| "event_uuid (Call_joinChannel channelName uuid) = Some uuid"
| "event_uuid (Call_autoConnect chans uuid) = Some uuid"
| "event_uuid (Timer_fires h chans uuid) = Some uuid"
| "event_uuid e = None"

text \<open>
  A frame answers the request \<open>k\<close> when the listener takes it for a resolution or a progress
  update of \<open>k\<close>: a response whose message has the id \<open>k\<close> and a truthy \<open>result\<close> (the relay's echo
  of the command has the id and no result), or a progress update with the id \<open>k\<close>. An event
  leaves the request \<open>k\<close> alone when it is no such frame and creates no request with the same id.
\<close>

definition answers :: "string \<Rightarrow> js_exn + js \<Rightarrow> bool" where
  "answers k parsed =
     (case parsed of
        Inl e \<Rightarrow> False
      | Inr json \<Rightarrow>
          (case get_prop json ''type'' of
             Inl e \<Rightarrow> False
           | Inr ty \<Rightarrow>
               if ty = JStr ''progress_update'' then get_prop json ''id'' = Inr (JStr k)
               else
                 (case get_prop json ''message'' of
                    Inl e \<Rightarrow> False
                  | Inr m \<Rightarrow>
                      get_prop m ''id'' = Inr (JStr k) \<and>
                      (case get_prop m ''result'' of Inl e \<Rightarrow> False | Inr res \<Rightarrow> truthy res))))"

fun leaves_alone :: "string \<Rightarrow> client_event \<Rightarrow> bool" where
  "leaves_alone k (Ws_message parsed) = (\<not> answers k parsed)"
| "leaves_alone k e = (event_uuid e \<noteq> Some k)"

text \<open>
  The two events that end a request with no answer: the close of the socket, and the firing of
  its timer \<open>h\<close>.
\<close>

fun keeps_waiting :: "nat \<Rightarrow> client_event \<Rightarrow> bool" where
  "keeps_waiting h (Ws_close backoff) = False"
| "keeps_waiting h (Timer_fires h' chans uuid) = (h' \<noteq> h)"
| "keeps_waiting h e = True"

text \<open>
  The request \<open>k\<close>, registered as the entry \<open>r\<close> with a timer due at \<open>d\<close>, is waiting: the entry is in
  the table, its timer is active, its promise is not settled. Or it is over: no entry, no
  timer, and the promise was rejected by the timeout or by the close of the connection. A
  request is tracked when it is one or the other and no other timer is a timeout of \<open>k\<close>; a step
  keeps it when it is tracked afterwards and the step did not touch its entry.
\<close>

definition waiting :: "client \<Rightarrow> string \<Rightarrow> pending_request \<Rightarrow> int \<Rightarrow> bool" where
  "waiting st k r d \<longleftrightarrow>
     map_of (pendingRequests st) k = Some r \<and>
     map_of (timers st) (timeout r) = Some (d, RequestTimeout k (promise r)) \<and>
     outcome st (promise r) = None"

definition over :: "client \<Rightarrow> string \<Rightarrow> pending_request \<Rightarrow> bool" where
  "over st k r \<longleftrightarrow>
     \<not> pending_has st k \<and> map_of (timers st) (timeout r) = None \<and>
     (outcome st (promise r) = Some (Rejected Error_TimedOut) \<or>
      outcome st (promise r) = Some (Rejected Error_ConnectionClosed))"

definition tracked :: "client \<Rightarrow> string \<Rightarrow> pending_request \<Rightarrow> int \<Rightarrow> bool" where
  "tracked st k r d \<longleftrightarrow>
     timeout r < next_timer st \<and> promise r < next_promise st \<and>
     (\<forall>(h, d', a) \<in> set (timers st). action_id a = Some k \<longrightarrow> h = timeout r) \<and>
     (waiting st k r d \<or> over st k r)"

definition kept :: "client \<Rightarrow> client \<Rightarrow> string \<Rightarrow> pending_request \<Rightarrow> int \<Rightarrow> bool" where
  "kept st st' k r d \<longleftrightarrow>
     tracked st' k r d \<and> map_of (pendingRequests st') k = map_of (pendingRequests st) k"

subsection \<open>Runs of the server\<close>

text \<open>
  What can happen to the server module: a call of one of its exported functions that write, an
  event of a connection, and an upgrade that throws in the \<^verbatim>\<open>fetch\<close> handler, which counts an
  error. The other requests to \<^verbatim>\<open>fetch\<close> and the getters only read.
\<close>

datatype server_event =
    Srv_start bool
  | Srv_stop
  | Srv_setCurrentChannel "string option"
  | Srv_open nat
  | Srv_message nat "js_exn + js"
  | Srv_close nat
  | Srv_readyState nat ready_state
  | Srv_upgrade_failed

fun server_step :: "server_event \<Rightarrow> server \<Rightarrow> server" where
  "server_step (Srv_start ok) sv = startWebSocketServer ok sv"
| "server_step Srv_stop sv = stopWebSocketServer sv"
| "server_step (Srv_setCurrentChannel c) sv = setCurrentChannel c sv"
| "server_step (Srv_open conn) sv = srv_open conn sv"
| "server_step (Srv_message conn parsed) sv = srv_message conn parsed sv"
| "server_step (Srv_close conn) sv = srv_close conn sv"
| "server_step (Srv_readyState conn rs) sv = srv_readyState_changed conn rs sv"
| "server_step Srv_upgrade_failed sv = count_error sv"

definition server_run :: "server_event list \<Rightarrow> server" where
  "server_run evs = foldl (\<lambda>sv e. server_step e sv) initial_server evs"


text \<open>
  The registry is well formed: the names are distinct, a channel is empty exactly if its name
  cannot be converted to a string, a set has no connection twice, every primitive name is truthy (a
  join with a falsy name is refused) and every reference is one already given out.
\<close>

definition key_ok :: "chan_key \<Rightarrow> nat \<Rightarrow> bool" where
  "key_ok k n = (case k of Prim v \<Rightarrow> truthy v | Ref m v \<Rightarrow> m < n)"

definition registry_ok :: "server \<Rightarrow> bool" where
  "registry_ok sv \<longleftrightarrow>
     distinct (map fst (channels sv)) \<and>
     (\<forall>(k, clients) \<in> set (channels sv).
        (clients = [] \<longleftrightarrow> to_string_throws (name_of k)) \<and> distinct clients \<and>
        key_ok k (next_ref sv))"

section \<open>Example runs and frames\<close>

text \<open>
  Runs of the client used as concrete instances below: the socket opens, the client joins the
  channel \<open>figma\<close> (the relay confirms the join \<open>j1\<close>), sends a command \<open>r1\<close> with a timeout of
  100 ms, and so on.
\<close>

definition join_confirmation :: js where
  "join_confirmation =
     JObj [(''type'', JStr ''system''),
           (''message'', JObj [(''id'', JStr ''j1''), (''result'', JStr ''Connected to channel: figma'')]),
           (''channel'', JStr ''figma'')]"

definition joined_run :: "client_event list" where
  "joined_run =
     [Call_connectToFigma, Ws_open, Call_joinChannel ''figma'' ''j1'',
      Ws_message (Inr join_confirmation), Resume_joinChannel ''figma'' 0]"

definition open_run :: "client_event list" where
  "open_run = [Call_connectToFigma, Ws_open]"

definition pending_run :: "client_event list" where
  "pending_run = joined_run @ [Call_sendCommandToFigma ''get_document_info'' [] 100 ''r1'']"

definition progress_run :: "client_event list" where
  "progress_run = pending_run @ [Time_passes 80]"

definition two_pending_run :: "client_event list" where
  "two_pending_run = pending_run @ [Call_sendCommandToFigma ''get_selection'' [] 60000 ''r2'']"

definition dropped_run :: "client_event list" where
  "dropped_run =
     pending_run @
     [Ws_closing, Call_sendCommandToFigma ''get_selection'' [] 60000 ''r2'', Dropped_socket_closes]"


definition late_response :: js where
  "late_response =
     JObj [(''type'', JStr ''broadcast''),
           (''message'', JObj [(''id'', JStr ''r1''), (''result'', JStr ''done'')]),
           (''channel'', JStr ''figma'')]"

definition error_response :: js where
  "error_response =
     JObj [(''type'', JStr ''broadcast''),
           (''message'', JObj [(''id'', JStr ''r1''), (''error'', JStr ''Node not found'')]),
           (''channel'', JStr ''figma'')]"

definition progress_frame :: js where
  "progress_frame =
     JObj [(''type'', JStr ''progress_update''),
           (''id'', JStr ''r1''),
           (''message'', JObj [(''data'', JObj [(''commandType'', JStr ''scan''), (''progress'', JNum 50),
                                                 (''message'', JStr ''half way'')])]),
           (''channel'', JStr ''figma'')]"

definition bare_progress_frame :: js where
  "bare_progress_frame = JObj [(''type'', JStr ''progress_update''), (''id'', JStr ''r1'')]"

text \<open>
  The relay's echo of the command \<open>r1\<close>, a response to a second request \<open>r2\<close> whose \<open>error\<close> cannot be
  converted to a string, and a run in which the request \<open>r1\<close> gets no answer.
\<close>

definition echo_frame :: js where
  "echo_frame =
     JObj [(''type'', JStr ''broadcast''),
           (''message'', JObj [(''id'', JStr ''r1''), (''command'', JStr ''get_document_info''),
                               (''params'', JObj [(''commandId'', JStr ''r1'')])]),
           (''channel'', JStr ''figma'')]"

definition unprintable_error_response :: js where
  "unprintable_error_response =
     JObj [(''type'', JStr ''broadcast''),
           (''message'', JObj [(''id'', JStr ''r2''), (''result'', JObj []),
                               (''error'', JObj [(''toString'', JNum 1)])]),
           (''channel'', JStr ''figma'')]"

definition busy_run :: "client_event list" where
  "busy_run =
     [Ws_message (Inr echo_frame),
      Call_sendCommandToFigma ''get_selection'' [] 60000 ''r2'',
      Ws_message (Inr unprintable_error_response),
      Time_passes 100]"

text \<open>Frames and runs of the server.\<close>

definition join_frame :: "string \<Rightarrow> string \<Rightarrow> js" where
  "join_frame c i = JObj [(''type'', JStr ''join''), (''channel'', JStr c), (''id'', JStr i)]"

definition command_frame :: js where
  "command_frame =
     JObj [(''id'', JStr ''r1''), (''type'', JStr ''message''), (''channel'', JStr ''design''),
           (''message'', JObj [(''id'', JStr ''r1''), (''command'', JStr ''get_document_info'')])]"


definition ping_frame :: js where
  "ping_frame = JObj [(''type'', JStr ''ping'')]"

definition three_clients_run :: "server_event list" where
  "three_clients_run =
     [Srv_open 1, Srv_open 2, Srv_open 3,
      Srv_message 1 (Inr (join_frame ''design'' ''j1'')),
      Srv_message 2 (Inr (join_frame ''design'' ''j2'')),
      Srv_message 3 (Inr (join_frame ''other'' ''j3''))]"

section \<open>Association lists and property access\<close>

lemma set_alist_update: "set (AList.update k v al) \<subseteq> insert (k, v) (set al)"
  by (induction al) auto

lemma map_of_absent: "k \<notin> fst ` set al \<Longrightarrow> map_of al k = None"
  by (simp add: map_of_eq_None_iff)

lemma get_prop_defined: "v \<noteq> JNull \<Longrightarrow> v \<noteq> JUndefined \<Longrightarrow> \<exists>x. get_prop v k = Inr x"
  by (cases v) (auto split: option.splits)

section \<open>The registry stays well formed\<close>

lemma leave_all_keys: "fst ` set (leave_all conn xs) \<subseteq> fst ` set xs"
proof (induction xs)
  case Nil
  show ?case by simp
next
  case (Cons x xs)
  obtain k cs where x: "x = (k, cs)" by (cases x)
  show ?case using Cons x by (auto split: if_splits)
qed

lemma leave_all_distinct: "distinct (map fst xs) \<Longrightarrow> distinct (map fst (leave_all conn xs))"
proof (induction xs)
  case Nil
  then show ?case by simp
next
  case (Cons x xs)
  obtain k cs where x: "x = (k, cs)" by (cases x)
  have "k \<notin> fst ` set (leave_all conn xs)"
    using Cons.prems x leave_all_keys [of conn xs] by auto
  then show ?case using Cons x by auto
qed

lemma leave_all_entries:
  "(k, cs) \<in> set (leave_all conn xs) \<Longrightarrow>
     cs \<noteq> [] \<or> (k, cs) \<in> set xs \<or> to_string_throws (name_of k)"
  by (induction xs) (auto split: if_splits)

lemma leave_all_entries2:
  "(k, cs) \<in> set (leave_all conn xs) \<Longrightarrow>
     \<exists>cs0. (k, cs0) \<in> set xs \<and> (cs = cs0 \<or> cs = removeAll conn cs0)"
proof (induction xs)
  case Nil
  then show ?case by simp
next
  case (Cons x xs)
  obtain k' cs' where x: "x = (k', cs')" by (cases x)
  have "(k, cs) = (k', cs') \<or> (k, cs) = (k', removeAll conn cs') \<or> (k, cs) \<in> set xs \<or>
        (k, cs) \<in> set (leave_all conn xs)"
    using Cons.prems x by (auto split: if_splits)
  then show ?case using Cons.IH x by auto
qed



lemma broadcast_loop_channels [simp]:
  "channels (broadcast_loop env ex cs sv) = channels sv"
  "next_ref (broadcast_loop env ex cs sv) = next_ref sv"
  "conn_readyState (broadcast_loop env ex cs sv) = conn_readyState sv"
  by (induction env ex cs sv rule: broadcast_loop.induct)
     (auto simp: send_def count_sent_def)

lemma broadcastToChannel_channels [simp]:
  "channels (broadcastToChannel k env ex sv) = channels sv"
  "next_ref (broadcastToChannel k env ex sv) = next_ref sv"
  "conn_readyState (broadcastToChannel k env ex sv) = conn_readyState sv"
  by (auto simp: broadcastToChannel_def split: option.splits)

lemma registry_ok_alt:
  "registry_ok sv \<longleftrightarrow>
     distinct (map fst (channels sv)) \<and>
     (\<forall>(k, clients) \<in> set (channels sv).
        (clients = [] \<longleftrightarrow> to_string_throws (name_of k)) \<and> distinct clients \<and>
        key_ok k (next_ref sv))"
  by (simp add: registry_ok_def)

lemma name_of_key_of [simp]: "name_of (key_of v sv) = v"
  by (cases v) (simp_all add: key_of_def)

lemma key_ok_mono: "key_ok k n \<Longrightarrow> n \<le> m \<Longrightarrow> key_ok k m"
  by (auto simp: key_ok_def split: chan_key.splits)

lemma key_ok_key_of: "truthy v \<Longrightarrow> key_ok (key_of v sv) (Suc (next_ref sv))"
  by (cases v) (auto simp: key_ok_def key_of_def)

lemma registry_ok_update:
  assumes "registry_ok sv" "cs = [] \<longleftrightarrow> to_string_throws (name_of k)" "distinct cs" "key_ok k n"
          "next_ref sv \<le> n"
  shows "registry_ok (sv\<lparr> channels := AList.update k cs (channels sv), next_ref := n \<rparr>)"
proof -
  have d: "distinct (map fst (AList.update k cs (channels sv)))"
    using assms(1) by (simp add: registry_ok_alt distinct_update)
  have e: "\<And>k' cs'. (k', cs') \<in> set (AList.update k cs (channels sv)) \<Longrightarrow>
             (cs' = [] \<longleftrightarrow> to_string_throws (name_of k')) \<and> distinct cs' \<and> key_ok k' n"
  proof -
    fix k' cs' assume "(k', cs') \<in> set (AList.update k cs (channels sv))"
    then have "(k', cs') = (k, cs) \<or> (k', cs') \<in> set (channels sv)"
      using set_alist_update [of k cs "channels sv"] by auto
    then show "(cs' = [] \<longleftrightarrow> to_string_throws (name_of k')) \<and> distinct cs' \<and> key_ok k' n"
      using assms by (auto simp: registry_ok_alt intro: key_ok_mono)
  qed
  show ?thesis using d e by (auto simp: registry_ok_alt)
qed

lemma registry_ok_frame:
  "channels sv' = channels sv \<Longrightarrow> next_ref sv \<le> next_ref sv' \<Longrightarrow> registry_ok sv \<Longrightarrow> registry_ok sv'"
  by (auto simp: registry_ok_alt intro: key_ok_mono)

text \<open>
  What a join with a truthy channel name does to the registry: the connection is added to the
  channel, unless the channel is new and its name cannot be converted to a string, in which
  case the channel is left with no member.
\<close>

lemma handle_join_channels:
  assumes "get_prop data ''channel'' = Inr v" "truthy v"
  shows "channels (handle_join conn data sv) =
           AList.update (key_of v sv)
             (if map_of (channels sv) (key_of v sv) = None \<and> to_string_throws v then []
              else set_add conn (members sv (key_of v sv)))
             (channels sv) \<and>
         next_ref (handle_join conn data sv) = Suc (next_ref sv)"
  using assms
  by (auto simp: handle_join_def Let_def members_def send_def count_sent_def update_conv'
                 handler_failed_def count_error_def
           split: option.splits)

lemma members_ok:
  "registry_ok sv \<Longrightarrow> distinct (members sv k)"
  by (auto simp: registry_ok_alt members_def split: option.splits dest!: map_of_SomeD)

lemma set_add_ok: "distinct cs \<Longrightarrow> set_add c cs \<noteq> [] \<and> distinct (set_add c cs)"
  by (auto simp: set_add_def)

text \<open>A name that cannot be converted to a string is an object met for the first time.\<close>

lemma unprintable_is_new:
  assumes "registry_ok sv" "to_string_throws v"
  shows "map_of (channels sv) (key_of v sv) = None"
proof (rule ccontr)
  assume "map_of (channels sv) (key_of v sv) \<noteq> None"
  then obtain cs where "(key_of v sv, cs) \<in> set (channels sv)" by (auto dest: map_of_SomeD)
  then have "key_ok (key_of v sv) (next_ref sv)" using assms(1) by (auto simp: registry_ok_alt)
  then show False using assms(2) by (cases v) (auto simp: key_ok_def key_of_def)
qed

lemma registry_ok_join:
  assumes "registry_ok sv"
  shows "registry_ok (handle_join conn data sv)"
proof (cases "get_prop data ''channel''")
  case (Inl e)
  then show ?thesis using assms by (simp add: handle_join_def)
next
  case (Inr v)
  show ?thesis
  proof (cases "truthy v")
    case False
    then show ?thesis using assms Inr
      by (auto simp: handle_join_def send_def elim: registry_ok_frame [rotated 2])
  next
    case True
    let ?k = "key_of v sv"
    let ?cs = "set_add conn (members sv ?k)"
    have ok: "registry_ok (sv\<lparr> channels := AList.update ?k ?cs (channels sv), next_ref := Suc (next_ref sv) \<rparr>)"
      if "\<not> to_string_throws v"
      using assms that set_add_ok [OF members_ok [OF assms], of conn ?k] key_ok_key_of [OF True, of sv]
      by (intro registry_ok_update) auto
    have ok0: "registry_ok (sv\<lparr> channels := AList.update ?k [] (channels sv), next_ref := Suc (next_ref sv) \<rparr>)"
      if "to_string_throws v"
      using assms that key_ok_key_of [OF True, of sv]
      by (intro registry_ok_update) auto
    show ?thesis
    proof (cases "map_of (channels sv) ?k = None \<and> to_string_throws v")
      case True
      then show ?thesis
        by (intro registry_ok_frame [OF _ _ ok0]) (simp_all add: handle_join_channels [OF Inr \<open>truthy v\<close>])
    next
      case False
      have "(if map_of (channels sv) ?k = None \<and> to_string_throws v then []
             else set_add conn (members sv ?k)) = ?cs" using False by auto
      moreover have "\<not> to_string_throws v" using False unprintable_is_new [OF assms, of v] by auto
      ultimately show ?thesis
        by (intro registry_ok_frame [OF _ _ ok]) (simp_all add: handle_join_channels [OF Inr True])
    qed
  qed
qed

lemma registry_ok_message: "registry_ok sv \<Longrightarrow> registry_ok (handle_message conn data sv)"
  by (erule registry_ok_frame [rotated 2])
     (auto simp: handle_message_def Let_def send_def split: sum.splits)

lemma registry_ok_progress: "registry_ok sv \<Longrightarrow> registry_ok (handle_progress conn data sv)"
  by (erule registry_ok_frame [rotated 2])
     (auto simp: handle_progress_def Let_def split: sum.splits)

lemma registry_ok_srv_message: "registry_ok sv \<Longrightarrow> registry_ok (srv_message conn parsed sv)"
proof -
  assume a: "registry_ok sv"
  have r: "registry_ok (count_received sv)"
    by (rule registry_ok_frame [OF _ _ a]) (simp_all add: count_received_def)
  have f: "\<And>e. registry_ok (handler_failed conn e (count_received sv))"
    by (rule registry_ok_frame [OF _ _ r]) (simp_all add: handler_failed_def send_def count_error_def)
  show ?thesis
    using r f registry_ok_join [OF r] registry_ok_message [OF r] registry_ok_progress [OF r]
    by (auto simp: srv_message_def Let_def split: sum.splits)
qed

lemma registry_ok_close: "registry_ok sv \<Longrightarrow> registry_ok (srv_close conn sv)"
proof -
  assume a: "registry_ok sv"
  have d: "distinct (map fst (leave_all conn (channels sv)))"
    using a by (simp add: registry_ok_alt leave_all_distinct)
  have e: "\<And>k cs. (k, cs) \<in> set (leave_all conn (channels sv)) \<Longrightarrow>
             (cs = [] \<longleftrightarrow> to_string_throws (name_of k)) \<and> distinct cs \<and> key_ok k (next_ref sv)"
  proof -
    fix k cs assume m: "(k, cs) \<in> set (leave_all conn (channels sv))"
    from leave_all_entries2 [OF m] obtain cs0 where
      c: "(k, cs0) \<in> set (channels sv)" "cs = cs0 \<or> cs = removeAll conn cs0" by blast
    have z: "cs0 = [] \<longleftrightarrow> to_string_throws (name_of k)" using a c(1) by (auto simp: registry_ok_alt)
    have "cs \<noteq> [] \<or> (k, cs) \<in> set (channels sv) \<or> to_string_throws (name_of k)"
      using leave_all_entries [OF m] .
    then have "cs = [] \<longrightarrow> to_string_throws (name_of k)" using a by (auto simp: registry_ok_alt)
    moreover have "to_string_throws (name_of k) \<longrightarrow> cs = []" using z c(2) by auto
    moreover have "distinct cs" using a c by (auto simp: registry_ok_alt distinct_removeAll)
    moreover have "key_ok k (next_ref sv)" using a c by (auto simp: registry_ok_alt)
    ultimately show "(cs = [] \<longleftrightarrow> to_string_throws (name_of k)) \<and> distinct cs \<and> key_ok k (next_ref sv)"
      by blast
  qed
  show ?thesis using d e by (auto simp: registry_ok_alt srv_close_def Let_def)
qed

lemma registry_ok_step: "registry_ok sv \<Longrightarrow> registry_ok (server_step e sv)"
proof (cases e)
  case (Srv_start ok)
  assume "registry_ok sv"
  then show ?thesis using Srv_start by (auto simp: startWebSocketServer_def registry_ok_alt)
next
  case Srv_stop
  assume "registry_ok sv"
  then show ?thesis using Srv_stop by (auto simp: stopWebSocketServer_def registry_ok_alt)
next
  case (Srv_setCurrentChannel c)
  assume "registry_ok sv"
  then show ?thesis using Srv_setCurrentChannel by (auto simp: setCurrentChannel_def registry_ok_alt)
next
  case (Srv_open conn)
  assume "registry_ok sv"
  then show ?thesis using Srv_open by (auto simp: srv_open_def Let_def send_def registry_ok_alt)
next
  case (Srv_message conn parsed)
  assume "registry_ok sv"
  then show ?thesis using Srv_message by (simp add: registry_ok_srv_message)
next
  case (Srv_close conn)
  assume "registry_ok sv"
  then show ?thesis using Srv_close by (simp add: registry_ok_close)
next
  case (Srv_readyState conn rs)
  assume "registry_ok sv"
  then show ?thesis using Srv_readyState by (auto simp: srv_readyState_changed_def registry_ok_alt)
next
  case Srv_upgrade_failed
  assume "registry_ok sv"
  then show ?thesis using Srv_upgrade_failed by (auto simp: count_error_def registry_ok_alt)
qed

lemma registry_ok_run: "registry_ok (server_run evs)"
proof (induction evs rule: rev_induct)
  case Nil
  show ?case by (simp add: server_run_def initial_server_def registry_ok_def)
next
  case (snoc e evs)
  then show ?case by (simp add: server_run_def registry_ok_step)
qed

lemma is_open_send [simp]:
  "is_open (count_sent (send c env sv)) = is_open sv"
  by (auto simp: is_open_def send_def count_sent_def fun_eq_iff)

lemma broadcast_loop_outbox:
  "outbox (broadcast_loop env None cs sv) =
     outbox sv @ map (\<lambda>c. (c, env)) (filter (is_open sv) cs)"
proof (induction cs arbitrary: sv)
  case Nil
  show ?case by simp
next
  case (Cons c cs)
  show ?case
    by (simp add: Cons.IH) (simp add: send_def count_sent_def)
qed

lemma broadcast_loop_errors [simp]:
  "errors (server_stats (broadcast_loop env ex cs sv)) = errors (server_stats sv)"
  by (induction env ex cs sv rule: broadcast_loop.induct) (auto simp: send_def count_sent_def)

lemma members_Some:
  "members sv k \<noteq> [] \<Longrightarrow> map_of (channels sv) k = Some (members sv k)"
  by (cases "map_of (channels sv) k") (auto simp: members_def)

lemma member_truthy:
  assumes "registry_ok sv" "conn \<in> set (members sv (key_of C sv))"
  shows "truthy C"
proof -
  from assms(2) obtain cs where m: "map_of (channels sv) (key_of C sv) = Some cs"
    by (cases "map_of (channels sv) (key_of C sv)") (auto simp: members_def)
  then have "(key_of C sv, cs) \<in> set (channels sv)" by (rule map_of_SomeD)
  then have "key_ok (key_of C sv) (next_ref sv)" using assms(1) by (auto simp: registry_ok_alt)
  then show ?thesis by (cases C) (auto simp: key_ok_def key_of_def)
qed

section \<open>Timer handles are allocated before they are used\<close>

lemma ha_intro:
  assumes "\<And>h d a. (h, d, a) \<in> set (timers st) \<Longrightarrow> h < next_timer st"
      and "\<And>k r. (k, r) \<in> set (pendingRequests st) \<Longrightarrow> timeout r < next_timer st"
  shows "handles_allocated st"
  using assms by (auto simp: handles_allocated_def)

lemma ha_timerD: "handles_allocated st \<Longrightarrow> (h, t) \<in> set (timers st) \<Longrightarrow> h < next_timer st"
  by (auto simp: handles_allocated_def)

lemma ha_pendingD:
  "handles_allocated st \<Longrightarrow> (k, r) \<in> set (pendingRequests st) \<Longrightarrow> timeout r < next_timer st"
  by (auto simp: handles_allocated_def)

text \<open>A step that keeps or shrinks the timers and the table, and does not lower the counter.\<close>

lemma ha_shrink:
  assumes "handles_allocated st"
      and "set (timers st') \<subseteq> set (timers st)"
      and "set (pendingRequests st') \<subseteq> set (pendingRequests st)"
      and "next_timer st \<le> next_timer st'"
  shows "handles_allocated st'"
  using assms unfolding handles_allocated_def by fastforce

lemma ha_setTimeout:
  "handles_allocated st \<Longrightarrow> handles_allocated (snd (setTimeout a d st))"
  unfolding handles_allocated_def setTimeout_def by fastforce

lemma ha_clearTimeout: "handles_allocated st \<Longrightarrow> handles_allocated (clearTimeout h st)"
  by (erule ha_shrink) (auto simp: clearTimeout_def AList.delete_eq)

lemma ha_reject: "handles_allocated st \<Longrightarrow> handles_allocated (reject p e st)"
  by (erule ha_shrink) (auto simp: reject_def)

lemma ha_resolve: "handles_allocated st \<Longrightarrow> handles_allocated (resolve p v st)"
  by (erule ha_shrink) (auto simp: resolve_def)

lemma ha_pending_delete: "handles_allocated st \<Longrightarrow> handles_allocated (pending_delete k st)"
  by (erule ha_shrink) (auto simp: pending_delete_def AList.delete_eq)

lemma ha_pending_set:
  "handles_allocated st \<Longrightarrow> timeout r < next_timer st \<Longrightarrow> handles_allocated (pending_set k r st)"
  unfolding handles_allocated_def pending_set_def
  using set_alist_update [of k r "pendingRequests st"] by fastforce

lemma ha_new_socket: "handles_allocated st \<Longrightarrow> handles_allocated (new_socket st)"
  unfolding handles_allocated_def new_socket_def setTimeout_def by fastforce

lemma ha_ws_update: "handles_allocated st \<Longrightarrow> handles_allocated (st\<lparr> ws := w \<rparr>)"
  by (erule ha_shrink) auto

lemma ha_connectToFigma: "handles_allocated st \<Longrightarrow> handles_allocated (connectToFigma st)"
  by (auto simp: connectToFigma_def ha_new_socket ha_ws_update split: option.splits)

lemma ha_sendCommandToFigma:
  assumes "handles_allocated st"
  shows "handles_allocated (snd (sendCommandToFigma command params timeoutMs uuid st))"
proof -
  let ?st = "st\<lparr> next_promise := Suc (next_promise st) \<rparr>"
  have a: "handles_allocated ?st" using assms by (rule ha_shrink) auto
  have b: "handles_allocated
             (pending_set uuid \<lparr> promise = p, timeout = next_timer ?st, lastActivity = l \<rparr>
                (snd (setTimeout act timeoutMs ?st)))" for p l act
    by (rule ha_pending_set [OF ha_setTimeout [OF a]]) (simp add: setTimeout_def)
  have c: "handles_allocated (s\<lparr> sent := x \<rparr>)" if "handles_allocated s" for s x
    using that by (rule ha_shrink) auto
  show ?thesis
    using ha_reject [OF ha_connectToFigma [OF a]] ha_reject [OF a] c [OF b]
    by (auto simp: sendCommandToFigma_def Let_def setTimeout_def split: prod.splits)
qed

lemma ha_handle_progress_update:
  assumes "handles_allocated st"
  shows "handles_allocated (handle_progress_update json st)"
proof -
  have b: "handles_allocated
             (pending_set k (r\<lparr> lastActivity := l, timeout := next_timer st \<rparr>)
                (snd (setTimeout act d (clearTimeout h st))))" for k r l act d h
    by (rule ha_pending_set [OF ha_setTimeout [OF ha_clearTimeout [OF assms]]])
       (simp add: setTimeout_def clearTimeout_def)
  show ?thesis
    using assms b
    by (auto simp: handle_progress_update_def Let_def setTimeout_def clearTimeout_def
             split: sum.splits js.splits option.splits prod.splits)
qed

lemma ha_handle_response:
  assumes "handles_allocated st"
  shows "handles_allocated (handle_response json st)"
  using assms
  by (auto simp: handle_response_def Let_def
           intro!: ha_pending_delete ha_reject ha_resolve ha_clearTimeout
           split: sum.splits js.splits option.splits)

lemma ha_ws_on_message: "handles_allocated st \<Longrightarrow> handles_allocated (ws_on_message parsed st)"
  by (auto simp: ws_on_message_def ha_handle_progress_update ha_handle_response split: sum.splits)

lemma ha_reject_all: "handles_allocated st \<Longrightarrow> handles_allocated (reject_all xs st)"
  by (induction xs st rule: reject_all.induct)
     (auto intro!: ha_pending_delete ha_reject ha_clearTimeout)

lemma ha_ws_on_close: "handles_allocated st \<Longrightarrow> handles_allocated (ws_on_close h b st)"
  unfolding ws_on_close_def Let_def
  by (intro ha_setTimeout ha_reject_all ha_ws_update ha_clearTimeout)

lemma ha_ws_on_open: "handles_allocated st \<Longrightarrow> handles_allocated (ws_on_open h st)"
proof -
  assume a: "handles_allocated st"
  have b: "handles_allocated ((clearTimeout h st)\<lparr> currentChannel := None \<rparr>)"
    by (rule ha_shrink [OF ha_clearTimeout [OF a]]) auto
  show ?thesis using b ha_setTimeout [OF b] by (simp add: ws_on_open_def Let_def)
qed

lemma ha_joinChannel: "handles_allocated st \<Longrightarrow> handles_allocated (snd (joinChannel c u st))"
  using ha_sendCommandToFigma [of st "''join''" "[(''channel'', JStr c)]" 60000 u]
  by (auto simp: joinChannel_def split: prod.splits)

lemma ha_joinChannel_resume:
  "handles_allocated st \<Longrightarrow> handles_allocated (snd (joinChannel_resume c s st))"
  by (erule ha_shrink) (auto simp: joinChannel_resume_def split: settlement.splits)

lemma ha_autoConnect: "handles_allocated st \<Longrightarrow> handles_allocated (snd (autoConnect cs u st))"
  using ha_joinChannel [of st]
  by (auto simp: autoConnect_def split: option.splits list.splits prod.splits sum.splits)
     (metis snd_conv)+

lemma ha_tryAutoConnect: "handles_allocated st \<Longrightarrow> handles_allocated (snd (tryAutoConnect cs u st))"
  using ha_joinChannel [of st]
  by (auto simp: tryAutoConnect_def split: option.splits list.splits prod.splits sum.splits)
     (metis snd_conv)+

lemma ha_request_timed_out: "handles_allocated st \<Longrightarrow> handles_allocated (request_timed_out k p st)"
  by (auto simp: request_timed_out_def intro!: ha_reject ha_pending_delete)

lemma ha_run_callback: "handles_allocated st \<Longrightarrow> handles_allocated (run_callback a cs u st)"
  by (cases a)
     (auto simp: run_callback_def ha_tryAutoConnect ha_connectToFigma ha_request_timed_out
        ha_ws_update split: option.splits)

lemma ha_fire_timer: "handles_allocated st \<Longrightarrow> handles_allocated (fire_timer h cs u st)"
  by (auto simp: fire_timer_def ha_run_callback ha_clearTimeout split: option.splits)

lemma ha_step: "handles_allocated st \<Longrightarrow> handles_allocated (client_step e st)"
proof (cases e)
  case Call_disconnect
  assume a: "handles_allocated st"
  have "handles_allocated (snd (disconnect st))"
    by (rule ha_shrink [OF a]) (auto simp: disconnect_def split: option.splits)
  then show ?thesis using Call_disconnect by simp
next
  case (Call_setAutoConnect b)
  assume a: "handles_allocated st"
  have "handles_allocated (setAutoConnect b st)"
    by (rule ha_shrink [OF a]) (auto simp: setAutoConnect_def)
  then show ?thesis using Call_setAutoConnect by simp
next
  case Ws_open
  assume a: "handles_allocated st"
  show ?thesis using Ws_open a
    by (auto simp: ws_open_event_def split: option.splits intro!: ha_ws_on_open ha_ws_update)
next
  case Ws_closing
  assume a: "handles_allocated st"
  show ?thesis using Ws_closing a
    by (auto simp: ws_closing_event_def split: option.splits intro!: ha_ws_update)
next
  case (Ws_close b)
  assume a: "handles_allocated st"
  show ?thesis using Ws_close a
    by (auto simp: ws_close_event_def split: option.splits intro!: ha_ws_on_close ha_ws_update)
next
  case (Time_passes ms)
  assume a: "handles_allocated st"
  have "handles_allocated (advance ms st)"
    by (rule ha_shrink [OF a]) (auto simp: advance_def)
  then show ?thesis using Time_passes by simp
qed (auto simp: ha_connectToFigma ha_sendCommandToFigma ha_joinChannel ha_joinChannel_resume
       ha_autoConnect ha_ws_on_message ha_fire_timer split: option.splits)

section \<open>The loop of the close listener\<close>

lemma reject_all_frame [simp]:
  "currentChannel (reject_all xs st) = currentChannel st"
  "ws (reject_all xs st) = ws st"
  "sent (reject_all xs st) = sent st"
  "next_timer (reject_all xs st) = next_timer st"
  "now (reject_all xs st) = now st"
  by (induction xs st rule: reject_all.induct)
     (auto simp: pending_delete_def reject_def clearTimeout_def)

lemma reject_all_next_promise [simp]: "next_promise (reject_all xs st) = next_promise st"
  by (induction xs st rule: reject_all.induct)
     (auto simp: pending_delete_def reject_def clearTimeout_def)

lemma reject_all_settled:
  "settled (reject_all xs st) =
     settled st @ map (\<lambda>(k, r). (promise r, Rejected Error_ConnectionClosed)) xs"
  by (induction xs st rule: reject_all.induct)
     (auto simp: pending_delete_def reject_def clearTimeout_def)

lemma reject_all_pending_sub:
  "set (pendingRequests (reject_all xs st)) \<subseteq> set (pendingRequests st)"
proof (induction xs st rule: reject_all.induct)
  case (1 st)
  show ?case by simp
next
  case (2 k request rest st)
  have "set (pendingRequests (pending_delete k (reject (promise request) Error_ConnectionClosed
               (clearTimeout (timeout request) st)))) \<subseteq> set (pendingRequests st)"
    by (auto simp: pending_delete_def reject_def clearTimeout_def AList.delete_eq)
  with 2 show ?case by auto
qed

lemma reject_all_pending_deleted:
  "(k, r) \<in> set xs \<Longrightarrow> k \<notin> fst ` set (pendingRequests (reject_all xs st))"
proof (induction xs st rule: reject_all.induct)
  case (1 st)
  then show ?case by simp
next
  case (2 k' request rest st)
  let ?st = "pending_delete k' (reject (promise request) Error_ConnectionClosed
               (clearTimeout (timeout request) st))"
  show ?case
  proof (cases "(k, r) \<in> set rest")
    case True
    then show ?thesis using "2.IH" by simp
  next
    case False
    then have "k = k'" using "2.prems" by auto
    moreover have "k' \<notin> fst ` set (pendingRequests ?st)"
      by (auto simp: pending_delete_def reject_def clearTimeout_def AList.delete_eq)
    ultimately show ?thesis using reject_all_pending_sub [of rest ?st] by auto
  qed
qed

lemma reject_all_empty: "pendingRequests (reject_all (pendingRequests st) st) = []"
proof (rule ccontr)
  assume "pendingRequests (reject_all (pendingRequests st) st) \<noteq> []"
  then obtain k r where m: "(k, r) \<in> set (pendingRequests (reject_all (pendingRequests st) st))"
    by (cases "pendingRequests (reject_all (pendingRequests st) st)") auto
  then have "(k, r) \<in> set (pendingRequests st)" using reject_all_pending_sub by blast
  then have "k \<notin> fst ` set (pendingRequests (reject_all (pendingRequests st) st))"
    by (rule reject_all_pending_deleted)
  then show False using m by force
qed

lemma reject_all_timers_sub:
  "set (timers (reject_all xs st)) \<subseteq> set (timers st)"
proof (induction xs st rule: reject_all.induct)
  case (1 st)
  show ?case by simp
next
  case (2 k request rest st)
  have "set (timers (pending_delete k (reject (promise request) Error_ConnectionClosed
               (clearTimeout (timeout request) st)))) \<subseteq> set (timers st)"
    by (auto simp: pending_delete_def reject_def clearTimeout_def AList.delete_eq)
  with 2 show ?case by auto
qed

lemma reject_all_timers_cleared:
  "(k, r) \<in> set xs \<Longrightarrow> timeout r \<notin> fst ` set (timers (reject_all xs st))"
proof (induction xs st rule: reject_all.induct)
  case (1 st)
  then show ?case by simp
next
  case (2 k' request rest st)
  let ?st = "pending_delete k' (reject (promise request) Error_ConnectionClosed
               (clearTimeout (timeout request) st))"
  show ?case
  proof (cases "(k, r) \<in> set rest")
    case True
    then show ?thesis using "2.IH" by simp
  next
    case False
    then have "r = request" using "2.prems" by auto
    moreover have "timeout request \<notin> fst ` set (timers ?st)"
      by (auto simp: pending_delete_def reject_def clearTimeout_def AList.delete_eq)
    ultimately show ?thesis using reject_all_timers_sub [of rest ?st] by auto
  qed
qed

lemma map_of_rejections:
  "(k, r) \<in> set xs \<Longrightarrow>
     map_of (map (\<lambda>(k, r). (promise r, Rejected Error_ConnectionClosed)) xs) (promise r)
       = Some (Rejected Error_ConnectionClosed)"
  by (induction xs) auto

section \<open>Promises, entries and timers stay consistent\<close>

lemma owner_mono:
  "owner st p k \<Longrightarrow> set (pendingRequests st') \<subseteq> set (pendingRequests st) \<Longrightarrow> owner st' p k"
  unfolding owner_def by blast

lemma ownerD: "owner st p k \<Longrightarrow> (k', r') \<in> set (pendingRequests st) \<Longrightarrow> promise r' = p \<Longrightarrow> k' = k"
  unfolding owner_def by blast

lemma action_ok_mono:
  "action_ok st a \<Longrightarrow> set (pendingRequests st') \<subseteq> set (pendingRequests st) \<Longrightarrow>
     next_promise st \<le> next_promise st' \<Longrightarrow> action_ok st' a"
  by (cases a) (auto intro: owner_mono)

lemma action_ok_request:
  "a = RequestTimeout k p \<or> a = ProgressTimeout k p \<Longrightarrow>
     action_ok st a \<longleftrightarrow> p < next_promise st \<and> owner st p k"
  by auto

lemma action_ok_cases:
  assumes "action_ok st a"
  obtains (plain) "\<And>st'. action_ok st' a"
        | (request) k p where "a = RequestTimeout k p \<or> a = ProgressTimeout k p"
                              "p < next_promise st" "owner st p k"
  using assms by (cases a) auto

lemma pok_settledD: "promises_ok st \<Longrightarrow> (p, s) \<in> set (settled st) \<Longrightarrow> p < next_promise st"
  by (auto simp: promises_ok_def)

lemma pok_timerD: "promises_ok st \<Longrightarrow> (h, d, a) \<in> set (timers st) \<Longrightarrow> action_ok st a"
  by (auto simp: promises_ok_def)

lemma pok_entryD: "promises_ok st \<Longrightarrow> (k, r) \<in> set (pendingRequests st) \<Longrightarrow> entry_ok st k r"
  by (auto simp: promises_ok_def)

lemma pok_intro:
  assumes "\<And>p s. (p, s) \<in> set (settled st) \<Longrightarrow> p < next_promise st"
      and "\<And>h d a. (h, d, a) \<in> set (timers st) \<Longrightarrow> action_ok st a"
      and "\<And>k r. (k, r) \<in> set (pendingRequests st) \<Longrightarrow> entry_ok st k r"
  shows "promises_ok st"
  using assms by (auto simp: promises_ok_def)

lemma entry_ok_boundD: "entry_ok st k r \<Longrightarrow> promise r < next_promise st"
  by (simp add: entry_ok_def)

lemma entry_ok_ownerD: "entry_ok st k r \<Longrightarrow> owner st (promise r) k"
  by (simp add: entry_ok_def)

lemma entry_ok_unsettledD: "entry_ok st k r \<Longrightarrow> promise r \<notin> fst ` set (settled st)"
  by (simp add: entry_ok_def)

lemma entry_ok_linkD:
  "entry_ok st k r \<Longrightarrow> (timeout r, d, a) \<in> set (timers st) \<Longrightarrow>
     a = RequestTimeout k (promise r) \<or> a = ProgressTimeout k (promise r)"
  unfolding entry_ok_def by blast

lemma entry_ok_intro:
  assumes "promise r < next_promise st"
      and "promise r \<notin> fst ` set (settled st)"
      and "owner st (promise r) k"
      and "\<And>d a. (timeout r, d, a) \<in> set (timers st) \<Longrightarrow>
             a = RequestTimeout k (promise r) \<or> a = ProgressTimeout k (promise r)"
  shows "entry_ok st k r"
  unfolding entry_ok_def using assms by blast

lemma entry_ok_transfer:
  assumes e: "entry_ok st k r"
      and n: "next_promise st \<le> next_promise st'"
      and s: "promise r \<notin> fst ` set (settled st')"
      and p: "set (pendingRequests st') \<subseteq> set (pendingRequests st)"
      and t: "\<And>d a. (timeout r, d, a) \<in> set (timers st') \<Longrightarrow> (timeout r, d, a) \<in> set (timers st)"
  shows "entry_ok st' k r"
proof (rule entry_ok_intro)
  show "promise r < next_promise st'" using e n by (simp add: entry_ok_def)
  show "promise r \<notin> fst ` set (settled st')" by (rule s)
  have "owner st (promise r) k" using e by (simp add: entry_ok_def)
  then show "owner st' (promise r) k" using p by (rule owner_mono)
  fix d a assume "(timeout r, d, a) \<in> set (timers st')"
  then have "(timeout r, d, a) \<in> set (timers st)" by (rule t)
  then show "a = RequestTimeout k (promise r) \<or> a = ProgressTimeout k (promise r)"
    using e by (rule entry_ok_linkD [rotated])
qed

text \<open>A step that settles nothing, adds no entry, and adds at most one timer with a new handle.\<close>

lemma pok_add_timer:
  assumes ok: "promises_ok st" and ha: "handles_allocated st"
      and t: "set (timers st') \<subseteq> insert (next_timer st, d, a) (set (timers st))"
      and a: "action_ok st a"
      and p: "set (pendingRequests st') \<subseteq> set (pendingRequests st)"
      and s: "settled st' = settled st"
      and n: "next_promise st \<le> next_promise st'"
  shows "promises_ok st'"
proof (rule pok_intro)
  fix q x assume "(q, x) \<in> set (settled st')"
  then show "q < next_promise st'" using pok_settledD [OF ok, of q x] s n by simp
next
  fix h' d' a' assume "(h', d', a') \<in> set (timers st')"
  then have "action_ok st a'" using t a pok_timerD [OF ok] by auto
  then show "action_ok st' a'" using p n by (rule action_ok_mono)
next
  fix k r assume m: "(k, r) \<in> set (pendingRequests st')"
  then have m0: "(k, r) \<in> set (pendingRequests st)" using p by auto
  have e: "entry_ok st k r" using pok_entryD [OF ok m0] .
  have lt: "timeout r < next_timer st" using ha_pendingD [OF ha m0] .
  show "entry_ok st' k r"
  proof (rule entry_ok_transfer [OF e n _ p])
    show "promise r \<notin> fst ` set (settled st')" using e s by (simp add: entry_ok_def)
    fix d' a' assume "(timeout r, d', a') \<in> set (timers st')"
    then show "(timeout r, d', a') \<in> set (timers st)" using t lt by auto
  qed
qed

lemma pok_shrink:
  assumes ok: "promises_ok st"
      and t: "set (timers st') \<subseteq> set (timers st)"
      and p: "set (pendingRequests st') \<subseteq> set (pendingRequests st)"
      and s: "settled st' = settled st"
      and n: "next_promise st \<le> next_promise st'"
  shows "promises_ok st'"
proof (rule pok_intro)
  fix q x assume "(q, x) \<in> set (settled st')"
  then show "q < next_promise st'" using pok_settledD [OF ok, of q x] s n by simp
next
  fix h' d' a' assume "(h', d', a') \<in> set (timers st')"
  then have "action_ok st a'" using t pok_timerD [OF ok] by auto
  then show "action_ok st' a'" using p n by (rule action_ok_mono)
next
  fix k r assume m: "(k, r) \<in> set (pendingRequests st')"
  then have e: "entry_ok st k r" using pok_entryD [OF ok] p by auto
  show "entry_ok st' k r"
  proof (rule entry_ok_transfer [OF e n _ p])
    show "promise r \<notin> fst ` set (settled st')" using e s by (simp add: entry_ok_def)
    fix d' a' assume "(timeout r, d', a') \<in> set (timers st')"
    then show "(timeout r, d', a') \<in> set (timers st)" using t by auto
  qed
qed

text \<open>A step that settles one promise and keeps no entry of that promise.\<close>

lemma pok_settle:
  assumes ok: "promises_ok st"
      and s: "settled st' = settled st @ [(p, x)]"
      and b: "p < next_promise st'"
      and n: "next_promise st \<le> next_promise st'"
      and t: "set (timers st') \<subseteq> set (timers st)"
      and e: "set (pendingRequests st') \<subseteq> set (pendingRequests st)"
      and g: "\<And>k r. (k, r) \<in> set (pendingRequests st') \<Longrightarrow> promise r \<noteq> p"
  shows "promises_ok st'"
proof (rule pok_intro)
  fix q y assume "(q, y) \<in> set (settled st')"
  then show "q < next_promise st'" using pok_settledD [OF ok, of q y] s n b by auto
next
  fix h' d' a' assume "(h', d', a') \<in> set (timers st')"
  then have "action_ok st a'" using t pok_timerD [OF ok] by auto
  then show "action_ok st' a'" using e n by (rule action_ok_mono)
next
  fix k r assume m: "(k, r) \<in> set (pendingRequests st')"
  then have e0: "entry_ok st k r" using pok_entryD [OF ok] e by auto
  show "entry_ok st' k r"
  proof (rule entry_ok_transfer [OF e0 n _ e])
    have "promise r \<notin> fst ` set (settled st)" using e0 by (simp add: entry_ok_def)
    then show "promise r \<notin> fst ` set (settled st')" using s g [OF m] by auto
    fix d' a' assume "(timeout r, d', a') \<in> set (timers st')"
    then show "(timeout r, d', a') \<in> set (timers st)" using t by auto
  qed
qed

lemma pok_settle_delete:
  assumes ok: "promises_ok st" and m: "(k, r) \<in> set (pendingRequests st)"
      and s: "settled st' = settled st @ [(promise r, x)]"
      and n: "next_promise st' = next_promise st"
      and t: "set (timers st') \<subseteq> set (timers st)"
      and e: "pendingRequests st' = AList.delete k (pendingRequests st)"
  shows "promises_ok st'"
proof (rule pok_settle [OF ok s])
  have e0: "entry_ok st k r" using pok_entryD [OF ok m] .
  show "promise r < next_promise st'" using entry_ok_boundD [OF e0] n by simp
  show "next_promise st \<le> next_promise st'" using n by simp
  show "set (timers st') \<subseteq> set (timers st)" by (rule t)
  show "set (pendingRequests st') \<subseteq> set (pendingRequests st)" using e by (auto simp: AList.delete_eq)
  fix k2 r2 assume "(k2, r2) \<in> set (pendingRequests st')"
  then have "(k2, r2) \<in> set (pendingRequests st)" "k2 \<noteq> k" using e by (auto simp: AList.delete_eq)
  then show "promise r2 \<noteq> promise r" using ownerD [OF entry_ok_ownerD [OF e0], of k2 r2] by auto
qed

text \<open>
  A step that installs the entry \<open>(k, r')\<close> of promise \<open>p\<close> with a new timer for it: the
  registration of a request, and the re-arming of its timer by a progress update.
\<close>

lemma pok_install:
  assumes ok: "promises_ok st" and ha: "handles_allocated st"
      and a: "a = RequestTimeout k p \<or> a = ProgressTimeout k p"
      and t: "set (timers st') \<subseteq> insert (next_timer st, d, a) (set (timers st))"
      and e: "set (pendingRequests st') \<subseteq> insert (k, r') (set (pendingRequests st))"
      and r': "promise r' = p" "timeout r' = next_timer st"
      and s: "settled st' = settled st"
      and n: "next_promise st \<le> next_promise st'" "p < next_promise st'"
      and u: "p \<notin> fst ` set (settled st)"
      and own: "owner st p k"
      and w: "\<And>k''. owner st p k'' \<Longrightarrow> p < next_promise st \<Longrightarrow> k'' = k"
  shows "promises_ok st'"
proof (rule pok_intro)
  fix q x assume "(q, x) \<in> set (settled st')"
  then show "q < next_promise st'" using pok_settledD [OF ok, of q x] s n by simp
next
  have own': "owner st' p k"
    unfolding owner_def
  proof (clarify)
    fix k2 r2 assume m: "(k2, r2) \<in> set (pendingRequests st')" and "p = promise r2"
    then show "k2 = k" using e ownerD [OF own, of k2 r2] by auto
  qed
  have own_old: "owner st' p2 k2" if o: "owner st p2 k2" and b: "p2 < next_promise st" for p2 k2
    unfolding owner_def
  proof (clarify)
    fix k3 r3 assume m: "(k3, r3) \<in> set (pendingRequests st')" and q: "p2 = promise r3"
    show "k3 = k2"
    proof (cases "(k3, r3) \<in> set (pendingRequests st)")
      case True
      then show ?thesis using ownerD [OF o] q by simp
    next
      case False
      then have x: "k3 = k" "r3 = r'" using m e by auto
      then have "p2 = p" using q r' by simp
      then have "k2 = k" using w o b by simp
      then show ?thesis using x by simp
    qed
  qed
  {
    fix h' d' a' assume m: "(h', d', a') \<in> set (timers st')"
    show "action_ok st' a'"
    proof (cases "(h', d', a') \<in> set (timers st)")
      case True
      from pok_timerD [OF ok True] show ?thesis
      proof (cases rule: action_ok_cases)
        case plain
        then show ?thesis .
      next
        case (request k2 p2)
        then show ?thesis using own_old [of p2 k2] n by auto
      qed
    next
      case False
      then have "a' = a" using m t by auto
      then show ?thesis using a own' n by auto
    qed
  }
  {
    fix k2 r2 assume m: "(k2, r2) \<in> set (pendingRequests st')"
    show "entry_ok st' k2 r2"
    proof (cases "(k2, r2) \<in> set (pendingRequests st)")
      case True
      have e0: "entry_ok st k2 r2" using pok_entryD [OF ok True] .
      have lt: "timeout r2 < next_timer st" using ha_pendingD [OF ha True] .
      show ?thesis
      proof (rule entry_ok_intro)
        show "promise r2 < next_promise st'" using entry_ok_boundD [OF e0] n by simp
        show "promise r2 \<notin> fst ` set (settled st')" using entry_ok_unsettledD [OF e0] s by simp
        show "owner st' (promise r2) k2"
          using own_old [OF entry_ok_ownerD [OF e0] entry_ok_boundD [OF e0]] .
        fix d' a' assume "(timeout r2, d', a') \<in> set (timers st')"
        then have "(timeout r2, d', a') \<in> set (timers st)" using t lt by auto
        then show "a' = RequestTimeout k2 (promise r2) \<or> a' = ProgressTimeout k2 (promise r2)"
          using e0 by (rule entry_ok_linkD [rotated])
      qed
    next
      case False
      then have x: "k2 = k" "r2 = r'" using m e by auto
      show ?thesis
        unfolding x
      proof (rule entry_ok_intro)
        show "promise r' < next_promise st'" using r' n by simp
        show "promise r' \<notin> fst ` set (settled st')" using r' s u by simp
        show "owner st' (promise r') k" using own' r' by simp
        fix d' a' assume y: "(timeout r', d', a') \<in> set (timers st')"
        have "(timeout r', d', a') \<notin> set (timers st)"
          using ha_timerD [OF ha, of "timeout r'" "(d', a')"] r' by auto
        then have "a' = a" using y t by auto
        then show "a' = RequestTimeout k (promise r') \<or> a' = ProgressTimeout k (promise r')"
          using a r' by simp
      qed
    qed
  }
qed

lemma connectToFigma_frame [simp]:
  "pendingRequests (connectToFigma st) = pendingRequests st"
  "settled (connectToFigma st) = settled st"
  "next_promise (connectToFigma st) = next_promise st"
  "sent (connectToFigma st) = sent st"
  by (auto simp: connectToFigma_def new_socket_def setTimeout_def split: option.splits)

lemma pok_new_socket:
  assumes "promises_ok st" "handles_allocated st"
  shows "promises_ok (new_socket st)"
  by (rule pok_add_timer [OF assms, where a = ConnectionTimeout and d = "now st + timer_delay 10000"])
     (auto simp: new_socket_def setTimeout_def)

lemma pok_ws_update: "promises_ok st \<Longrightarrow> promises_ok (st\<lparr> ws := w \<rparr>)"
  by (erule pok_shrink) auto

lemma pok_connectToFigma:
  assumes "promises_ok st" "handles_allocated st"
  shows "promises_ok (connectToFigma st)"
  using assms pok_new_socket [OF assms]
        pok_new_socket [OF pok_ws_update [OF assms(1)] ha_ws_update [OF assms(2)], of None]
  by (auto simp: connectToFigma_def split: option.splits)

lemma pok_clearTimeout: "promises_ok st \<Longrightarrow> promises_ok (clearTimeout h st)"
  by (erule pok_shrink) (auto simp: clearTimeout_def AList.delete_eq)

lemma pok_sendCommandToFigma:
  assumes ok: "promises_ok st" and ha: "handles_allocated st"
  shows "promises_ok (snd (sendCommandToFigma command params timeoutMs uuid st))"
proof -
  let ?p = "next_promise st"
  let ?st = "st\<lparr> next_promise := Suc ?p \<rparr>"
  have ok1: "promises_ok ?st" using ok by (rule pok_shrink) auto
  have ha1: "handles_allocated ?st" using ha by (rule ha_shrink) auto
  have fresh: "promise r \<noteq> ?p" if "(k, r) \<in> set (pendingRequests st)" for k r
    using entry_ok_boundD [OF pok_entryD [OF ok that]] by simp
  have unsettled: "?p \<notin> fst ` set (settled st)"
    using pok_settledD [OF ok] by fastforce
  have a: "promises_ok (reject ?p e (connectToFigma ?st))" for e
    by (rule pok_settle [OF pok_connectToFigma [OF ok1 ha1], where p = ?p and x = "Rejected e"])
       (auto simp: reject_def dest: fresh)
  have b: "promises_ok (reject ?p e ?st)" for e
    by (rule pok_settle [OF ok1, where p = ?p and x = "Rejected e"])
       (auto simp: reject_def dest: fresh)
  have c: "promises_ok
             ((pending_set uuid \<lparr> promise = ?p, timeout = next_timer st, lastActivity = l \<rparr>
                (snd (setTimeout (RequestTimeout uuid ?p) timeoutMs ?st)))\<lparr> sent := x \<rparr>)" for l x
  proof (rule pok_install [OF ok ha, where a = "RequestTimeout uuid ?p" and k = uuid and p = ?p
            and d = "now st + timer_delay timeoutMs"
            and r' = "\<lparr> promise = ?p, timeout = next_timer st, lastActivity = l \<rparr>"])
    show "owner st ?p uuid" unfolding owner_def using fresh by blast
    show "?p \<notin> fst ` set (settled st)" by (rule unsettled)
    show "set (pendingRequests
             ((pending_set uuid \<lparr> promise = ?p, timeout = next_timer st, lastActivity = l \<rparr>
                (snd (setTimeout (RequestTimeout uuid ?p) timeoutMs ?st)))\<lparr> sent := x \<rparr>))
          \<subseteq> insert (uuid, \<lparr> promise = ?p, timeout = next_timer st, lastActivity = l \<rparr>)
               (set (pendingRequests st))"
      using set_alist_update [of uuid _ "pendingRequests st"]
      by (simp add: pending_set_def setTimeout_def)
  qed (auto simp: pending_set_def setTimeout_def)
  show ?thesis
    using a b c
    by (auto simp: sendCommandToFigma_def Let_def setTimeout_def split: prod.splits)
qed

lemma pok_handle_progress_update:
  assumes ok: "promises_ok st" and ha: "handles_allocated st"
  shows "promises_ok (handle_progress_update json st)"
proof -
  have c: "promises_ok
             (pending_set k (r\<lparr> lastActivity := l, timeout := next_timer st \<rparr>)
                (snd (setTimeout (ProgressTimeout k (promise r)) 120000 (clearTimeout (timeout r) st))))"
    if m: "map_of (pendingRequests st) k = Some r" for k r l
  proof -
    have mem: "(k, r) \<in> set (pendingRequests st)" using m by (rule map_of_SomeD)
    have e0: "entry_ok st k r" using pok_entryD [OF ok mem] .
    show ?thesis
    proof (rule pok_install [OF ok ha, where a = "ProgressTimeout k (promise r)" and k = k
              and p = "promise r" and d = "now st + timer_delay 120000"
              and r' = "r\<lparr> lastActivity := l, timeout := next_timer st \<rparr>"])
      show "owner st (promise r) k" using entry_ok_ownerD [OF e0] .
      show "promise r \<notin> fst ` set (settled st)" using entry_ok_unsettledD [OF e0] .
      show "promise r < next_promise
              (pending_set k (r\<lparr> lastActivity := l, timeout := next_timer st \<rparr>)
                (snd (setTimeout (ProgressTimeout k (promise r)) 120000 (clearTimeout (timeout r) st))))"
        using entry_ok_boundD [OF e0] by (simp add: pending_set_def setTimeout_def clearTimeout_def)
      show "set (pendingRequests
              (pending_set k (r\<lparr> lastActivity := l, timeout := next_timer st \<rparr>)
                (snd (setTimeout (ProgressTimeout k (promise r)) 120000 (clearTimeout (timeout r) st)))))
            \<subseteq> insert (k, r\<lparr> lastActivity := l, timeout := next_timer st \<rparr>) (set (pendingRequests st))"
        using set_alist_update [of k _ "pendingRequests st"]
        by (simp add: pending_set_def setTimeout_def clearTimeout_def)
      show "k'' = k" if "owner st (promise r) k''" for k''
        using ownerD [OF that mem] by simp
    qed (auto simp: pending_set_def setTimeout_def clearTimeout_def AList.delete_eq)
  qed
  show ?thesis
    using ok c
    by (auto simp: handle_progress_update_def Let_def setTimeout_def clearTimeout_def
             split: sum.splits js.splits option.splits prod.splits)
qed

lemma pok_handle_response:
  assumes ok: "promises_ok st"
  shows "promises_ok (handle_response json st)"
proof -
  have a: "promises_ok (pending_delete k (reject (promise r) e (clearTimeout (timeout r) st)))"
    if "map_of (pendingRequests st) k = Some r" for k r e
    by (rule pok_settle_delete [OF ok map_of_SomeD [OF that], where x = "Rejected e"])
       (auto simp: pending_delete_def reject_def clearTimeout_def AList.delete_eq)
  have b: "promises_ok (pending_delete k (resolve (promise r) v (clearTimeout (timeout r) st)))"
    if "map_of (pendingRequests st) k = Some r" for k r v
    by (rule pok_settle_delete [OF ok map_of_SomeD [OF that], where x = "Resolved v"])
       (auto simp: pending_delete_def resolve_def clearTimeout_def AList.delete_eq)
  show ?thesis
    using ok a b pok_clearTimeout [OF ok]
    by (auto simp: handle_response_def Let_def split: sum.splits js.splits option.splits)
qed

lemma pok_ws_on_message:
  "promises_ok st \<Longrightarrow> handles_allocated st \<Longrightarrow> promises_ok (ws_on_message parsed st)"
  by (auto simp: ws_on_message_def pok_handle_progress_update pok_handle_response split: sum.splits)

lemma pok_ws_on_close:
  assumes ok: "promises_ok st"
  shows "promises_ok (ws_on_close h b st)"
proof (rule pok_intro)
  let ?st2 = "(clearTimeout h st)\<lparr> ws := None \<rparr>"
  let ?st3 = "reject_all (pendingRequests ?st2) ?st2"
  have p2: "pendingRequests ?st2 = pendingRequests st" by (simp add: clearTimeout_def)
  have np: "next_promise (ws_on_close h b st) = next_promise st"
    by (simp add: ws_on_close_def Let_def setTimeout_def clearTimeout_def)
  have pe: "pendingRequests (ws_on_close h b st) = []"
    using reject_all_empty [of ?st2] by (simp add: ws_on_close_def Let_def setTimeout_def)
  have se: "settled (ws_on_close h b st) =
              settled st @ map (\<lambda>(k, r). (promise r, Rejected Error_ConnectionClosed)) (pendingRequests st)"
    by (simp add: ws_on_close_def Let_def setTimeout_def reject_all_settled p2)
       (simp add: clearTimeout_def)
  have ti: "set (timers (ws_on_close h b st)) \<subseteq> insert (next_timer st, now st + timer_delay b, Reconnect) (set (timers st))"
    using reject_all_timers_sub [of "pendingRequests ?st2" ?st2]
    by (auto simp: ws_on_close_def Let_def setTimeout_def clearTimeout_def AList.delete_eq)
  {
    fix q x assume "(q, x) \<in> set (settled (ws_on_close h b st))"
    then consider "(q, x) \<in> set (settled st)"
      | k r where "(k, r) \<in> set (pendingRequests st)" "q = promise r"
      unfolding se by auto
    then show "q < next_promise (ws_on_close h b st)"
    proof cases
      case 1
      then show ?thesis using pok_settledD [OF ok] np by simp
    next
      case 2
      then show ?thesis using entry_ok_boundD [OF pok_entryD [OF ok 2(1)]] np by simp
    qed
  }
  {
    fix h' d' a' assume "(h', d', a') \<in> set (timers (ws_on_close h b st))"
    then have "a' = Reconnect \<or> (h', d', a') \<in> set (timers st)" using ti by auto
    then show "action_ok (ws_on_close h b st) a'"
    proof
      assume "a' = Reconnect"
      then show ?thesis by simp
    next
      assume "(h', d', a') \<in> set (timers st)"
      then have "action_ok st a'" using pok_timerD [OF ok] by blast
      then show ?thesis by (rule action_ok_mono) (simp_all add: pe np)
    qed
  }
  {
    fix k r assume "(k, r) \<in> set (pendingRequests (ws_on_close h b st))"
    then show "entry_ok (ws_on_close h b st) k r" by (simp add: pe)
  }
qed

lemma pok_ws_on_open:
  assumes "promises_ok st" "handles_allocated st"
  shows "promises_ok (ws_on_open h st)"
  by (rule pok_add_timer [OF assms, where a = TryAutoConnect and d = "now st + timer_delay 1000"])
     (auto simp: ws_on_open_def Let_def setTimeout_def clearTimeout_def AList.delete_eq)

lemma pok_joinChannel:
  "promises_ok st \<Longrightarrow> handles_allocated st \<Longrightarrow> promises_ok (snd (joinChannel c u st))"
  using pok_sendCommandToFigma [of st "''join''" "[(''channel'', JStr c)]" 60000 u]
  by (auto simp: joinChannel_def split: prod.splits)

lemma pok_joinChannel_resume:
  "promises_ok st \<Longrightarrow> promises_ok (snd (joinChannel_resume c s st))"
  by (erule pok_shrink) (auto simp: joinChannel_resume_def split: settlement.splits)

lemma autoConnect_state:
  "snd (autoConnect cs u st) = st \<or> (\<exists>c. snd (autoConnect cs u st) = snd (joinChannel c u st))"
  by (auto simp: autoConnect_def split: option.splits list.splits prod.splits sum.splits)
     (metis snd_conv)+

lemma tryAutoConnect_state:
  "snd (tryAutoConnect cs u st) = st \<or> (\<exists>c. snd (tryAutoConnect cs u st) = snd (joinChannel c u st))"
  by (auto simp: tryAutoConnect_def split: option.splits list.splits prod.splits sum.splits)
     (metis snd_conv)+

lemma pok_autoConnect:
  "promises_ok st \<Longrightarrow> handles_allocated st \<Longrightarrow> promises_ok (snd (autoConnect cs u st))"
  using autoConnect_state [of cs u st] pok_joinChannel [of st] by auto

lemma pok_tryAutoConnect:
  "promises_ok st \<Longrightarrow> handles_allocated st \<Longrightarrow> promises_ok (snd (tryAutoConnect cs u st))"
  using tryAutoConnect_state [of cs u st] pok_joinChannel [of st] by auto

lemma pok_request_timed_out:
  assumes ok: "promises_ok st" and b: "p < next_promise st" and o: "owner st p k"
  shows "promises_ok (request_timed_out k p st)"
proof (cases "pending_has st k")
  case False
  then show ?thesis using ok by (simp add: request_timed_out_def)
next
  case True
  have "promises_ok (reject p Error_TimedOut (pending_delete k st))"
  proof (rule pok_settle [OF ok, where p = p and x = "Rejected Error_TimedOut"])
    fix k2 r2 assume "(k2, r2) \<in> set (pendingRequests (reject p Error_TimedOut (pending_delete k st)))"
    then have "(k2, r2) \<in> set (pendingRequests st)" "k2 \<noteq> k"
      by (auto simp: reject_def pending_delete_def AList.delete_eq)
    then show "promise r2 \<noteq> p" using ownerD [OF o, of k2 r2] by auto
  qed (auto simp: reject_def pending_delete_def AList.delete_eq b)
  then show ?thesis using True by (simp add: request_timed_out_def)
qed

lemma pok_fire_timer:
  assumes ok: "promises_ok st" and ha: "handles_allocated st"
  shows "promises_ok (fire_timer h cs u st)"
proof (cases "map_of (timers st) h")
  case None
  then show ?thesis using ok by (simp add: fire_timer_def)
next
  case (Some da)
  obtain d a where da: "da = (d, a)" by (cases da)
  have mem: "(h, d, a) \<in> set (timers st)" using Some da by (auto dest: map_of_SomeD)
  let ?st = "clearTimeout h st"
  have ok1: "promises_ok ?st" using ok by (rule pok_clearTimeout)
  have ha1: "handles_allocated ?st" using ha by (rule ha_clearTimeout)
  have ao: "action_ok ?st a"
    using pok_timerD [OF ok mem] by (rule action_ok_mono) (simp_all add: clearTimeout_def)
  have "promises_ok (run_callback a cs u ?st)"
  proof (cases a)
    case ConnectionTimeout
    then show ?thesis using ok1 by (auto simp: run_callback_def pok_ws_update split: option.splits)
  next
    case TryAutoConnect
    then show ?thesis using pok_tryAutoConnect [OF ok1 ha1] by (simp add: run_callback_def)
  next
    case Reconnect
    then show ?thesis using pok_connectToFigma [OF ok1 ha1] by (simp add: run_callback_def)
  next
    case (RequestTimeout k p)
    then show ?thesis using ao pok_request_timed_out [OF ok1] by (simp add: run_callback_def)
  next
    case (ProgressTimeout k p)
    then show ?thesis using ao pok_request_timed_out [OF ok1] by (simp add: run_callback_def)
  qed
  then show ?thesis using Some da ok by (simp add: fire_timer_def)
qed

lemma pok_step:
  assumes ok: "promises_ok st" and ha: "handles_allocated st"
  shows "promises_ok (client_step e st)"
proof (cases e)
  case Call_disconnect
  have "promises_ok (snd (disconnect st))"
    by (rule pok_shrink [OF ok]) (auto simp: disconnect_def split: option.splits)
  then show ?thesis using Call_disconnect by simp
next
  case (Call_setAutoConnect b)
  have "promises_ok (setAutoConnect b st)"
    by (rule pok_shrink [OF ok]) (auto simp: setAutoConnect_def)
  then show ?thesis using Call_setAutoConnect by simp
next
  case Ws_open
  show ?thesis using Ws_open ok ha
    by (auto simp: ws_open_event_def split: option.splits
             intro!: pok_ws_on_open pok_ws_update ha_ws_update)
next
  case Ws_closing
  show ?thesis using Ws_closing ok
    by (auto simp: ws_closing_event_def split: option.splits intro!: pok_ws_update)
next
  case (Ws_close b)
  show ?thesis using Ws_close ok
    by (auto simp: ws_close_event_def split: option.splits intro!: pok_ws_on_close pok_ws_update)
next
  case (Time_passes ms)
  have "promises_ok (advance ms st)"
    by (rule pok_shrink [OF ok]) (auto simp: advance_def)
  then show ?thesis using Time_passes by simp
qed (insert ok ha, auto simp: pok_connectToFigma pok_sendCommandToFigma pok_joinChannel
       pok_joinChannel_resume pok_autoConnect pok_ws_on_message pok_fire_timer split: option.splits)

text \<open>Both invariants hold in every state a run of the client reaches.\<close>

lemma client_run_ok: "handles_allocated (client_run evs) \<and> promises_ok (client_run evs)"
proof (induction evs rule: rev_induct)
  case Nil
  show ?case
    by (simp add: client_run_def initial_client_def handles_allocated_def promises_ok_def)
next
  case (snoc e evs)
  then show ?case by (simp add: client_run_def ha_step pok_step)
qed

lemma outcome_unsettled:
  "promises_ok st \<Longrightarrow> map_of (pendingRequests st) k = Some r \<Longrightarrow> outcome st (promise r) = None"
  using entry_ok_unsettledD [OF pok_entryD [OF _ map_of_SomeD]]
  by (simp add: outcome_def map_of_eq_None_iff)

lemma outcome_fresh: "promises_ok st \<Longrightarrow> outcome st (next_promise st) = None"
  using pok_settledD [of st "next_promise st"]
  by (fastforce simp: outcome_def map_of_eq_None_iff)

lemma outcome_appended:
  "outcome st p = None \<Longrightarrow> settled st' = settled st @ [(p, x)] \<Longrightarrow> outcome st' p = Some x"
  by (simp add: outcome_def map_of_append map_add_def)

lemma request_timed_out_fires:
  assumes "pending_has st k"
  shows "request_timed_out k p st = reject p Error_TimedOut (pending_delete k st)"
  using assms by (simp add: request_timed_out_def)

section \<open>The table and the connection timer\<close>

lemma ta_distinctD: "timers_apart st \<Longrightarrow> distinct (map fst (pendingRequests st))"
  by (simp add: timers_apart_def)

lemma ta_socketD:
  "timers_apart st \<Longrightarrow> ws st = Some s \<Longrightarrow>
     connectionTimeout s < next_timer st \<and>
     (\<forall>(k, r) \<in> set (pendingRequests st). timeout r \<noteq> connectionTimeout s)"
  by (auto simp: timers_apart_def)

text \<open>Two entries never name the same active timer.\<close>

lemma timer_of_one_entry:
  assumes ok: "promises_ok st"
      and m1: "(k1, r1) \<in> set (pendingRequests st)" and m2: "(k2, r2) \<in> set (pendingRequests st)"
      and h: "timeout r1 = timeout r2" and a: "timeout r1 \<in> fst ` set (timers st)"
  shows "k1 = k2"
proof -
  from a obtain d c where t: "(timeout r1, d, c) \<in> set (timers st)" by force
  have "c = RequestTimeout k1 (promise r1) \<or> c = ProgressTimeout k1 (promise r1)"
    using entry_ok_linkD [OF pok_entryD [OF ok m1] t] .
  moreover have "c = RequestTimeout k2 (promise r2) \<or> c = ProgressTimeout k2 (promise r2)"
    using entry_ok_linkD [OF pok_entryD [OF ok m2]] t h by simp
  ultimately show ?thesis by auto
qed

lemma ta_intro:
  assumes "distinct (map fst (pendingRequests st))"
      and "\<And>s. ws st = Some s \<Longrightarrow> connectionTimeout s < next_timer st"
      and "\<And>s k r. ws st = Some s \<Longrightarrow> (k, r) \<in> set (pendingRequests st) \<Longrightarrow>
             timeout r \<noteq> connectionTimeout s"
  shows "timers_apart st"
  using assms by (auto simp: timers_apart_def split: option.splits)

lemma set_alist_update_distinct:
  "distinct (map fst al) \<Longrightarrow>
     set (AList.update k v al) = insert (k, v) {x \<in> set al. fst x \<noteq> k}"
  by (induction al) (auto simp: rev_image_eqI)

lemma key_kept_by_delete: "x \<in> fst ` set al \<Longrightarrow> x \<noteq> h \<Longrightarrow> x \<in> fst ` set (AList.delete h al)"
  by (induction al) auto

lemma distinct_alist_delete: "distinct (map fst al) \<Longrightarrow> distinct (map fst (AList.delete k al))"
  by (simp add: distinct_delete)

lemma map_of_present: "k \<in> fst ` set al \<Longrightarrow> \<exists>v. map_of al k = Some v"
  by (cases "map_of al k") (auto simp: map_of_eq_None_iff)

text \<open>A step that adds no entry and no socket.\<close>

lemma ta_transfer:
  assumes ta: "timers_apart st"
      and d: "distinct (map fst (pendingRequests st'))"
      and e: "set (pendingRequests st') \<subseteq> set (pendingRequests st)"
      and w: "\<And>s'. ws st' = Some s' \<Longrightarrow> \<exists>s. ws st = Some s \<and> connectionTimeout s' = connectionTimeout s"
      and n: "next_timer st \<le> next_timer st'"
  shows "timers_apart st'"
proof (rule ta_intro)
  show "distinct (map fst (pendingRequests st'))" by (rule d)
next
  fix s' assume "ws st' = Some s'"
  then obtain s where s: "ws st = Some s" "connectionTimeout s' = connectionTimeout s"
    using w by blast
  then show "connectionTimeout s' < next_timer st'" using ta_socketD [OF ta s(1)] n by simp
next
  fix s' k r assume "ws st' = Some s'" and m: "(k, r) \<in> set (pendingRequests st')"
  then obtain s where s: "ws st = Some s" "connectionTimeout s' = connectionTimeout s"
    using w by blast
  have "(k, r) \<in> set (pendingRequests st)" using m e by auto
  then show "timeout r \<noteq> connectionTimeout s'" using ta_socketD [OF ta s(1)] s(2) by auto
qed

text \<open>A step that installs the entry \<open>(k, r')\<close> with the new timer.\<close>

lemma ta_install:
  assumes ta: "timers_apart st" and ha: "handles_allocated st"
      and e: "pendingRequests st' = AList.update k r' (pendingRequests st)"
      and r': "timeout r' = next_timer st"
      and w: "ws st' = ws st"
      and n: "next_timer st < next_timer st'"
  shows "timers_apart st'"
proof (rule ta_intro)
  have d: "distinct (map fst (pendingRequests st))" using ta by (rule ta_distinctD)
  show "distinct (map fst (pendingRequests st'))" using d by (simp add: e distinct_update)
  have mem: "(k2, r2) = (k, r') \<or> ((k2, r2) \<in> set (pendingRequests st) \<and> k2 \<noteq> k)"
    if "(k2, r2) \<in> set (pendingRequests st')" for k2 r2
    using that by (auto simp: e set_alist_update_distinct [OF d])
  {
    fix s assume "ws st' = Some s"
    then show "connectionTimeout s < next_timer st'" using ta_socketD [OF ta, of s] w n by simp
  }
  {
    fix s k2 r2 assume s: "ws st' = Some s" and m: "(k2, r2) \<in> set (pendingRequests st')"
    have c: "connectionTimeout s < next_timer st" using ta_socketD [OF ta, of s] s w by simp
    from mem [OF m] show "timeout r2 \<noteq> connectionTimeout s"
    proof
      assume "(k2, r2) = (k, r')"
      then show ?thesis using r' c by simp
    next
      assume "(k2, r2) \<in> set (pendingRequests st) \<and> k2 \<noteq> k"
      then show ?thesis using ta_socketD [OF ta, of s] s w by auto
    qed
  }
qed

lemma ta_new_socket:
  assumes ta: "timers_apart st" and ha: "handles_allocated st"
  shows "timers_apart (new_socket (st\<lparr> ws := w \<rparr>))"
proof (rule ta_intro)
  show "distinct (map fst (pendingRequests (new_socket (st\<lparr> ws := w \<rparr>))))"
    using ta_distinctD [OF ta] by (simp add: new_socket_def setTimeout_def)
next
  fix s assume "ws (new_socket (st\<lparr> ws := w \<rparr>)) = Some s"
  then show "connectionTimeout s < next_timer (new_socket (st\<lparr> ws := w \<rparr>))"
    by (auto simp: new_socket_def setTimeout_def)
next
  fix s k r assume s: "ws (new_socket (st\<lparr> ws := w \<rparr>)) = Some s"
    and "(k, r) \<in> set (pendingRequests (new_socket (st\<lparr> ws := w \<rparr>)))"
  then have "(k, r) \<in> set (pendingRequests st)" by (simp add: new_socket_def setTimeout_def)
  then have "timeout r < next_timer st" using ha by (rule ha_pendingD [rotated])
  then show "timeout r \<noteq> connectionTimeout s" using s by (auto simp: new_socket_def setTimeout_def)
qed

lemma ta_connectToFigma:
  assumes ta: "timers_apart st" and ha: "handles_allocated st"
  shows "timers_apart (connectToFigma st)"
proof -
  have "st\<lparr> ws := ws st \<rparr> = st" by simp
  then have "timers_apart (new_socket st)" using ta_new_socket [OF ta ha, of "ws st"] by simp
  then show ?thesis
    using ta ta_new_socket [OF ta ha, of None]
    by (auto simp: connectToFigma_def split: option.splits)
qed

lemma ta_settled: "timers_apart (st\<lparr> settled := x \<rparr>) = timers_apart st"
  by (auto simp: timers_apart_def split: option.splits)

lemma ta_next_promise: "timers_apart (st\<lparr> next_promise := x \<rparr>) = timers_apart st"
  by (auto simp: timers_apart_def split: option.splits)

lemma ta_sent: "timers_apart (st\<lparr> sent := x \<rparr>) = timers_apart st"
  by (auto simp: timers_apart_def split: option.splits)

lemma ta_timers: "timers_apart (st\<lparr> timers := x \<rparr>) = timers_apart st"
  by (auto simp: timers_apart_def split: option.splits)

lemma ha_next_promise: "handles_allocated (st\<lparr> next_promise := x \<rparr>) = handles_allocated st"
  by (simp add: handles_allocated_def)

lemma ta_sendCommandToFigma:
  assumes ta: "timers_apart st" and ha: "handles_allocated st"
  shows "timers_apart (snd (sendCommandToFigma command params timeoutMs uuid st))"
proof -
  let ?st = "st\<lparr> next_promise := Suc (next_promise st) \<rparr>"
  have ta1: "timers_apart ?st" using ta by (simp add: ta_next_promise)
  have ha1: "handles_allocated ?st" using ha by (simp add: ha_next_promise)
  have a: "timers_apart (reject p e (connectToFigma ?st))" for p e
    using ta_connectToFigma [OF ta1 ha1] by (simp add: reject_def ta_settled)
  have b: "timers_apart (reject p e ?st)" for p e
    using ta1 by (simp add: reject_def ta_settled)
  have c: "timers_apart
             ((pending_set uuid \<lparr> promise = p, timeout = next_timer st, lastActivity = l \<rparr>
                (snd (setTimeout act timeoutMs ?st)))\<lparr> sent := x \<rparr>)" for p l act x
    unfolding ta_sent
    by (rule ta_install [OF ta1 ha1, where k = uuid
          and r' = "\<lparr> promise = p, timeout = next_timer st, lastActivity = l \<rparr>"])
       (auto simp: pending_set_def setTimeout_def)
  show ?thesis
    using a b c
    by (auto simp: sendCommandToFigma_def Let_def setTimeout_def split: prod.splits)
qed

lemma ta_clearTimeout: "timers_apart (clearTimeout h st) = timers_apart st"
  by (simp add: clearTimeout_def ta_timers)

lemma ta_handle_progress_update:
  assumes ta: "timers_apart st" and ha: "handles_allocated st"
  shows "timers_apart (handle_progress_update json st)"
proof -
  have c: "timers_apart
             (pending_set k (r\<lparr> lastActivity := l, timeout := next_timer st \<rparr>)
                (snd (setTimeout act d (clearTimeout (timeout r) st))))" for k r l act d
    by (rule ta_install [OF ta ha, where k = k
            and r' = "r\<lparr> lastActivity := l, timeout := next_timer st \<rparr>"])
       (auto simp: pending_set_def setTimeout_def clearTimeout_def)
  show ?thesis
    using ta c
    by (auto simp: handle_progress_update_def Let_def setTimeout_def clearTimeout_def
             split: sum.splits js.splits option.splits prod.splits)
qed

lemma ta_pending_delete:
  assumes ta: "timers_apart st"
  shows "timers_apart (pending_delete k st)"
proof (rule ta_transfer [OF ta])
  show "distinct (map fst (pendingRequests (pending_delete k st)))"
    using ta_distinctD [OF ta] by (simp add: pending_delete_def distinct_delete)
qed (auto simp: pending_delete_def AList.delete_eq)

lemma ta_handle_response:
  assumes ta: "timers_apart st"
  shows "timers_apart (handle_response json st)"
proof -
  have a: "timers_apart (clearTimeout h st)" for h
    using ta by (simp add: ta_clearTimeout)
  have b: "timers_apart (pending_delete k (reject p e (clearTimeout h st)))" for k p e h
    by (rule ta_pending_delete) (simp add: reject_def ta_settled a)
  have c: "timers_apart (pending_delete k (resolve p v (clearTimeout h st)))" for k p v h
    by (rule ta_pending_delete) (simp add: resolve_def ta_settled a)
  have d: "timers_apart (pending_delete k (clearTimeout h st))" for k h
    by (rule ta_pending_delete) (rule a)
  show ?thesis
    using ta a b c d
    by (auto simp: handle_response_def Let_def split: sum.splits js.splits option.splits)
qed

lemma ta_ws_on_message:
  "timers_apart st \<Longrightarrow> handles_allocated st \<Longrightarrow> timers_apart (ws_on_message parsed st)"
  by (auto simp: ws_on_message_def ta_handle_progress_update ta_handle_response split: sum.splits)

lemma ta_ws_on_close: "timers_apart (ws_on_close h b st)"
proof (rule ta_intro)
  have pe: "pendingRequests (ws_on_close h b st) = []"
    using reject_all_empty [of "(clearTimeout h st)\<lparr> ws := None \<rparr>"]
    by (simp add: ws_on_close_def Let_def setTimeout_def)
  show "distinct (map fst (pendingRequests (ws_on_close h b st)))" by (simp add: pe)
  show "connectionTimeout s < next_timer (ws_on_close h b st)"
    if "ws (ws_on_close h b st) = Some s" for s
    using that by (simp add: ws_on_close_def Let_def setTimeout_def)
  show "timeout r \<noteq> connectionTimeout s"
    if "ws (ws_on_close h b st) = Some s" "(k, r) \<in> set (pendingRequests (ws_on_close h b st))"
    for s k r
    using that by (simp add: pe)
qed

lemma ta_ws_open_event:
  assumes ta: "timers_apart st"
  shows "timers_apart (ws_open_event st)"
proof (cases "ws st")
  case None
  then show ?thesis using ta by (simp add: ws_open_event_def)
next
  case (Some s)
  let ?st' = "ws_on_open (connectionTimeout s) (st\<lparr> ws := Some (s\<lparr> readyState := OPEN \<rparr>) \<rparr>)"
  have "timers_apart ?st'"
  proof (rule ta_transfer [OF ta])
    show "distinct (map fst (pendingRequests ?st'))"
      using ta_distinctD [OF ta] by (simp add: ws_on_open_def Let_def setTimeout_def clearTimeout_def)
    show "set (pendingRequests ?st') \<subseteq> set (pendingRequests st)"
      by (simp add: ws_on_open_def Let_def setTimeout_def clearTimeout_def)
    show "next_timer st \<le> next_timer ?st'"
      by (simp add: ws_on_open_def Let_def setTimeout_def clearTimeout_def)
    show "\<exists>s0. ws st = Some s0 \<and> connectionTimeout s' = connectionTimeout s0" if "ws ?st' = Some s'" for s'
      using that Some by (auto simp: ws_on_open_def Let_def setTimeout_def clearTimeout_def split: if_splits)
  qed
  then show ?thesis using Some by (simp add: ws_open_event_def)
qed

lemma ta_ws_closing_event:
  assumes ta: "timers_apart st"
  shows "timers_apart (ws_closing_event st)"
  by (rule ta_transfer [OF ta])
     (auto simp: ws_closing_event_def ta_distinctD [OF ta] split: option.splits)

lemma ta_joinChannel:
  "timers_apart st \<Longrightarrow> handles_allocated st \<Longrightarrow> timers_apart (snd (joinChannel c u st))"
  using ta_sendCommandToFigma [of st "''join''" "[(''channel'', JStr c)]" 60000 u]
  by (auto simp: joinChannel_def split: prod.splits)

lemma ta_joinChannel_resume:
  assumes ta: "timers_apart st"
  shows "timers_apart (snd (joinChannel_resume c s st))"
  by (rule ta_transfer [OF ta])
     (auto simp: joinChannel_resume_def ta_distinctD [OF ta] split: settlement.splits)

lemma ta_autoConnect:
  "timers_apart st \<Longrightarrow> handles_allocated st \<Longrightarrow> timers_apart (snd (autoConnect cs u st))"
  using autoConnect_state [of cs u st] ta_joinChannel [of st] by auto

lemma ta_tryAutoConnect:
  "timers_apart st \<Longrightarrow> handles_allocated st \<Longrightarrow> timers_apart (snd (tryAutoConnect cs u st))"
  using tryAutoConnect_state [of cs u st] ta_joinChannel [of st] by auto

lemma ta_request_timed_out:
  assumes ta: "timers_apart st"
  shows "timers_apart (request_timed_out k p st)"
  using ta ta_pending_delete [OF ta, of k]
  by (simp add: request_timed_out_def reject_def ta_settled)

lemma ta_fire_timer:
  assumes ta: "timers_apart st" and ha: "handles_allocated st"
  shows "timers_apart (fire_timer h cs u st)"
proof (cases "map_of (timers st) h")
  case None
  then show ?thesis using ta by (simp add: fire_timer_def)
next
  case (Some da)
  obtain d a where da: "da = (d, a)" by (cases da)
  let ?c = "clearTimeout h st"
  have plain: "timers_apart ?c" using ta by (simp add: ta_clearTimeout)
  have hac: "handles_allocated ?c" using ha by (rule ha_clearTimeout)
  have "timers_apart (run_callback a cs u ?c)"
  proof (cases a)
    case ConnectionTimeout
    have "timers_apart (?c\<lparr> ws := Some (s\<lparr> readyState := CLOSING \<rparr>) \<rparr>)" if "ws ?c = Some s" for s
      by (rule ta_transfer [OF plain]) (insert ConnectionTimeout that, auto simp: ta_distinctD [OF plain])
    then show ?thesis using ConnectionTimeout plain
      by (auto simp: run_callback_def split: option.splits)
  next
    case TryAutoConnect
    then show ?thesis using ta_tryAutoConnect [OF plain hac] by (simp add: run_callback_def)
  next
    case Reconnect
    then show ?thesis using ta_connectToFigma [OF plain hac] by (simp add: run_callback_def)
  next
    case (RequestTimeout k p)
    then show ?thesis using ta_request_timed_out [OF plain] by (simp add: run_callback_def)
  next
    case (ProgressTimeout k p)
    then show ?thesis using ta_request_timed_out [OF plain] by (simp add: run_callback_def)
  qed
  then show ?thesis using Some da ta by (simp add: fire_timer_def)
qed

lemma ta_step:
  assumes ta: "timers_apart st" and ha: "handles_allocated st"
  shows "timers_apart (client_step e st)"
proof (cases e)
  case Call_disconnect
  have "timers_apart (snd (disconnect st))"
    by (rule ta_transfer [OF ta]) (auto simp: disconnect_def ta_distinctD [OF ta] split: option.splits)
  then show ?thesis using Call_disconnect by simp
next
  case (Call_setAutoConnect b)
  have "timers_apart (setAutoConnect b st)"
    by (rule ta_transfer [OF ta]) (auto simp: setAutoConnect_def ta_distinctD [OF ta])
  then show ?thesis using Call_setAutoConnect by simp
next
  case (Ws_close b)
  then show ?thesis using ta by (auto simp: ws_close_event_def ta_ws_on_close split: option.splits)
next
  case (Time_passes ms)
  have "timers_apart (advance ms st)"
    by (rule ta_transfer [OF ta]) (auto simp: advance_def ta_distinctD [OF ta])
  then show ?thesis using Time_passes by simp
qed (insert ta ha, auto simp: ta_connectToFigma ta_sendCommandToFigma ta_joinChannel
       ta_joinChannel_resume ta_autoConnect ta_ws_on_message ta_fire_timer ta_ws_open_event
       ta_ws_closing_event split: option.splits)

lemma client_run_timers_apart: "timers_apart (client_run evs)"
proof (induction evs rule: rev_induct)
  case Nil
  show ?case by (simp add: client_run_def initial_client_def timers_apart_def)
next
  case (snoc e evs)
  then show ?case using client_run_ok [of evs] by (simp add: client_run_def ta_step)
qed

section \<open>A request waits for its timer\<close>

lemma map_of_snoc:
  "map_of (al @ [(n, v)]) h =
     (case map_of al h of None \<Rightarrow> if h = n then Some v else None | Some y \<Rightarrow> Some y)"
  by (simp add: map_of_append map_add_def split: option.splits)

lemma kept_frame:
  assumes tr: "tracked st k r d"
      and e: "map_of (pendingRequests st') k = map_of (pendingRequests st) k"
      and t: "map_of (timers st') (timeout r) = map_of (timers st) (timeout r)"
      and n: "\<And>h d' a. (h, d', a) \<in> set (timers st') \<Longrightarrow>
                (h, d', a) \<in> set (timers st) \<or> action_id a \<noteq> Some k"
      and s: "outcome st' (promise r) = outcome st (promise r)"
      and c: "next_timer st \<le> next_timer st'" "next_promise st \<le> next_promise st'"
  shows "kept st st' k r d"
proof -
  have b: "timeout r < next_timer st'" "promise r < next_promise st'"
    using tr c by (auto simp: tracked_def)
  have o: "h = timeout r" if "(h, d', a) \<in> set (timers st')" "action_id a = Some k" for h d' a
  proof -
    have "(h, d', a) \<in> set (timers st)" using n that by blast
    then show ?thesis using tr that(2) by (auto simp: tracked_def)
  qed
  have w: "waiting st' k r d \<or> over st' k r"
    using tr e t s by (auto simp: tracked_def waiting_def over_def pending_has_def)
  show ?thesis using b o w e by (auto simp: kept_def tracked_def)
qed

lemma kept_trans: "kept st st1 k r d \<Longrightarrow> kept st1 st2 k r d \<Longrightarrow> kept st st2 k r d"
  by (simp add: kept_def)

lemma kept_tracked: "kept st st' k r d \<Longrightarrow> tracked st' k r d"
  by (simp add: kept_def)

lemma kept_same:
  assumes "tracked st k r d"
      and "pendingRequests st' = pendingRequests st" "timers st' = timers st"
          "settled st' = settled st" "next_timer st' = next_timer st"
          "next_promise st \<le> next_promise st'"
  shows "kept st st' k r d"
  using assms by (intro kept_frame) (auto simp: outcome_def)

lemma kept_setTimeout:
  assumes "tracked st k r d" "action_id a \<noteq> Some k"
  shows "kept st (snd (setTimeout a dl st)) k r d"
proof (rule kept_frame [OF assms(1)])
  have "timeout r \<noteq> next_timer st" using assms(1) by (auto simp: tracked_def)
  then show "map_of (timers (snd (setTimeout a dl st))) (timeout r) = map_of (timers st) (timeout r)"
    by (simp add: setTimeout_def map_add_def split: option.splits)
qed (insert assms(2), auto simp: setTimeout_def outcome_def)

lemma kept_clearTimeout:
  assumes "tracked st k r d" "h' \<noteq> timeout r \<or> map_of (timers st) (timeout r) = None"
  shows "kept st (clearTimeout h' st) k r d"
proof (rule kept_frame [OF assms(1)])
  show "map_of (timers (clearTimeout h' st)) (timeout r) = map_of (timers st) (timeout r)"
    using assms(2) by (auto simp: clearTimeout_def delete_conv')
  show "(h, d', a) \<in> set (timers st) \<or> action_id a \<noteq> Some k"
    if "(h, d', a) \<in> set (timers (clearTimeout h' st))" for h d' a
    using that by (auto simp: clearTimeout_def AList.delete_eq)
qed (simp_all add: clearTimeout_def outcome_def)

lemma kept_reject:
  assumes "tracked st k r d" "p' \<noteq> promise r \<or> outcome st (promise r) \<noteq> None"
  shows "kept st (reject p' e st) k r d"
proof (rule kept_frame [OF assms(1)])
  show "outcome (reject p' e st) (promise r) = outcome st (promise r)"
    using assms(2) by (auto simp: reject_def outcome_def map_add_def split: option.splits)
qed (simp_all add: reject_def)

lemma kept_resolve:
  assumes "tracked st k r d" "p' \<noteq> promise r \<or> outcome st (promise r) \<noteq> None"
  shows "kept st (resolve p' v st) k r d"
proof (rule kept_frame [OF assms(1)])
  show "outcome (resolve p' v st) (promise r) = outcome st (promise r)"
    using assms(2) by (auto simp: resolve_def outcome_def map_add_def split: option.splits)
qed (simp_all add: resolve_def)

lemma kept_pending_set:
  assumes "tracked st k r d" "k' \<noteq> k"
  shows "kept st (pending_set k' r' st) k r d"
  using assms
  by (intro kept_frame) (auto simp: pending_set_def update_conv' outcome_def)

lemma kept_pending_delete:
  assumes "tracked st k r d" "k' \<noteq> k"
  shows "kept st (pending_delete k' st) k r d"
proof (rule kept_frame [OF assms(1)])
  show "map_of (pendingRequests (pending_delete k' st)) k = map_of (pendingRequests st) k"
    using assms(2) by (simp add: pending_delete_def delete_conv')
qed (simp_all add: pending_delete_def outcome_def)

text \<open>Another entry of the table has another promise and another timer.\<close>

lemma other_entry_apart:
  assumes tr: "tracked st k r d" and ok: "promises_ok st"
      and m: "map_of (pendingRequests st) k' = Some r'" and ne: "k' \<noteq> k"
  shows "promise r' \<noteq> promise r \<or> outcome st (promise r) \<noteq> None"
    and "timeout r' \<noteq> timeout r \<or> map_of (timers st) (timeout r) = None"
proof -
  have m': "(k', r') \<in> set (pendingRequests st)" using m by (rule map_of_SomeD)
  from tr have "waiting st k r d \<or> over st k r" by (simp add: tracked_def)
  then have "(promise r' \<noteq> promise r \<or> outcome st (promise r) \<noteq> None) \<and>
             (timeout r' \<noteq> timeout r \<or> map_of (timers st) (timeout r) = None)"
  proof
    assume w: "waiting st k r d"
    then have mk: "(k, r) \<in> set (pendingRequests st)" by (auto simp: waiting_def dest: map_of_SomeD)
    have a: "timeout r \<in> fst ` set (timers st)"
      using w by (auto simp: waiting_def dest!: map_of_SomeD intro: rev_image_eqI)
    have "promise r' \<noteq> promise r"
      using ownerD [OF entry_ok_ownerD [OF pok_entryD [OF ok mk]] m'] ne by auto
    moreover have "timeout r' \<noteq> timeout r"
      using timer_of_one_entry [OF ok mk m' _ a] ne by auto
    ultimately show ?thesis by simp
  next
    assume "over st k r"
    then show ?thesis by (auto simp: over_def)
  qed
  then show "promise r' \<noteq> promise r \<or> outcome st (promise r) \<noteq> None"
    and "timeout r' \<noteq> timeout r \<or> map_of (timers st) (timeout r) = None" by simp_all
qed


lemma kept_refl: "tracked st k r d \<Longrightarrow> kept st st k r d"
  by (simp add: kept_def)

lemma tracked_apart:
  assumes "tracked st k r d" "(k, r) \<in> set (pendingRequests st) \<Longrightarrow> h' \<noteq> timeout r"
  shows "h' \<noteq> timeout r \<or> map_of (timers st) (timeout r) = None"
  using assms by (auto simp: tracked_def waiting_def over_def dest: map_of_SomeD)

lemma kept_new_socket:
  assumes "tracked st k r d"
  shows "kept st (new_socket (st\<lparr> ws := w \<rparr>)) k r d"
proof (rule kept_frame [OF assms])
  have "timeout r \<noteq> next_timer st" using assms by (auto simp: tracked_def)
  then show "map_of (timers (new_socket (st\<lparr> ws := w \<rparr>))) (timeout r) = map_of (timers st) (timeout r)"
    by (simp add: new_socket_def setTimeout_def map_add_def split: option.splits)
qed (auto simp: new_socket_def setTimeout_def outcome_def)

lemma kept_connectToFigma:
  assumes "tracked st k r d"
  shows "kept st (connectToFigma st) k r d"
proof -
  have "st\<lparr> ws := ws st \<rparr> = st" by simp
  then have "kept st (new_socket st) k r d" using kept_new_socket [OF assms, of "ws st"] by simp
  then show ?thesis
    using kept_refl [OF assms] kept_new_socket [OF assms, of None]
    by (auto simp: connectToFigma_def split: option.splits)
qed

lemma kept_sendCommandToFigma:
  assumes tr: "tracked st k r d" and ne: "uuid \<noteq> k"
  shows "kept st (snd (sendCommandToFigma command params timeoutMs uuid st)) k r d"
proof -
  let ?p = "next_promise st"
  let ?st = "st\<lparr> next_promise := Suc ?p \<rparr>"
  have pn: "?p \<noteq> promise r" using tr by (auto simp: tracked_def)
  have a: "kept st ?st k r d" using tr by (rule kept_same) simp_all
  have t1: "tracked ?st k r d" using a by (rule kept_tracked)
  have b1: "kept st (reject ?p e (connectToFigma ?st)) k r d" for e
  proof -
    have x: "kept ?st (connectToFigma ?st) k r d" using t1 by (rule kept_connectToFigma)
    have y: "kept (connectToFigma ?st) (reject ?p e (connectToFigma ?st)) k r d"
      by (rule kept_reject [OF kept_tracked [OF x]]) (simp add: pn)
    show ?thesis using a x y by (blast intro: kept_trans)
  qed
  have b2: "kept st (reject ?p e ?st) k r d" for e
  proof -
    have "kept ?st (reject ?p e ?st) k r d" by (rule kept_reject [OF t1]) (simp add: pn)
    then show ?thesis using a by (blast intro: kept_trans)
  qed
  have b3: "kept st
              ((pending_set uuid \<lparr> promise = ?p, timeout = next_timer st, lastActivity = l \<rparr>
                 (snd (setTimeout (RequestTimeout uuid ?p) timeoutMs ?st)))\<lparr> sent := x \<rparr>) k r d" for l x
  proof -
    let ?s1 = "snd (setTimeout (RequestTimeout uuid ?p) timeoutMs ?st)"
    let ?s2 = "pending_set uuid \<lparr> promise = ?p, timeout = next_timer st, lastActivity = l \<rparr> ?s1"
    have c1: "kept ?st ?s1 k r d" by (rule kept_setTimeout [OF t1]) (simp add: ne)
    have c2: "kept ?s1 ?s2 k r d" by (rule kept_pending_set [OF kept_tracked [OF c1] ne])
    have c3: "kept ?s2 (?s2\<lparr> sent := x \<rparr>) k r d"
      by (rule kept_same [OF kept_tracked [OF c2]]) simp_all
    show ?thesis using a c1 c2 c3 by (blast intro: kept_trans)
  qed
  show ?thesis
    using b1 b2 b3
    by (auto simp: sendCommandToFigma_def Let_def setTimeout_def split: prod.splits)
qed

lemma kept_joinChannel:
  "tracked st k r d \<Longrightarrow> u \<noteq> k \<Longrightarrow> kept st (snd (joinChannel c u st)) k r d"
  using kept_sendCommandToFigma [of st k r d u "''join''" "[(''channel'', JStr c)]" 60000]
  by (auto simp: joinChannel_def kept_refl split: prod.splits)

lemma kept_joinChannel_resume:
  assumes "tracked st k r d"
  shows "kept st (snd (joinChannel_resume c s st)) k r d"
  by (rule kept_same [OF assms]) (auto simp: joinChannel_resume_def split: settlement.splits)

lemma kept_autoConnect:
  "tracked st k r d \<Longrightarrow> u \<noteq> k \<Longrightarrow> kept st (snd (autoConnect cs u st)) k r d"
  using autoConnect_state [of cs u st] kept_joinChannel [of st k r d u] kept_refl [of st k r d]
  by auto

lemma kept_tryAutoConnect:
  "tracked st k r d \<Longrightarrow> u \<noteq> k \<Longrightarrow> kept st (snd (tryAutoConnect cs u st)) k r d"
  using tryAutoConnect_state [of cs u st] kept_joinChannel [of st k r d u] kept_refl [of st k r d]
  by auto

lemma kept_handle_progress_update:
  assumes tr: "tracked st k r d" and ok: "promises_ok st"
      and nid: "get_prop json ''id'' \<noteq> Inr (JStr k)"
  shows "kept st (handle_progress_update json st) k r d"
proof -
  have c: "kept st
             (pending_set k' (r'\<lparr> lastActivity := l, timeout := next_timer st \<rparr>)
                (snd (setTimeout (ProgressTimeout k' (promise r')) 120000
                        (clearTimeout (timeout r') st)))) k r d"
    if m: "map_of (pendingRequests st) k' = Some r'" and ne: "k' \<noteq> k" for k' r' l
  proof -
    let ?s1 = "clearTimeout (timeout r') st"
    let ?s2 = "snd (setTimeout (ProgressTimeout k' (promise r')) 120000 ?s1)"
    have c1: "kept st ?s1 k r d"
      by (rule kept_clearTimeout [OF tr other_entry_apart(2) [OF tr ok m ne]])
    have c2: "kept ?s1 ?s2 k r d" by (rule kept_setTimeout [OF kept_tracked [OF c1]]) (simp add: ne)
    have c3: "kept ?s2 (pending_set k' (r'\<lparr> lastActivity := l, timeout := next_timer st \<rparr>) ?s2) k r d"
      by (rule kept_pending_set [OF kept_tracked [OF c2] ne])
    show ?thesis using c1 c2 c3 by (blast intro: kept_trans)
  qed
  show ?thesis
    using kept_refl [OF tr] c nid
    by (auto simp: handle_progress_update_def Let_def js_or_def setTimeout_def clearTimeout_def
             split: sum.splits js.splits option.splits prod.splits if_splits)
qed

lemma kept_handle_response:
  assumes tr: "tracked st k r d" and ok: "promises_ok st"
      and na: "\<And>m res. get_prop json ''message'' = Inr m \<Longrightarrow> get_prop m ''id'' = Inr (JStr k) \<Longrightarrow>
                 get_prop m ''result'' = Inr res \<Longrightarrow> \<not> truthy res"
  shows "kept st (handle_response json st) k r d"
proof -
  have a: "kept st (clearTimeout (timeout r') st) k r d"
    if m: "map_of (pendingRequests st) k' = Some r'" and ne: "k' \<noteq> k" for k' r'
    by (rule kept_clearTimeout [OF tr other_entry_apart(2) [OF tr ok m ne]])
  have b: "kept st (pending_delete k' (reject (promise r') e (clearTimeout (timeout r') st))) k r d"
    if m: "map_of (pendingRequests st) k' = Some r'" and ne: "k' \<noteq> k" for k' r' e
  proof -
    let ?s1 = "clearTimeout (timeout r') st"
    have o: "outcome ?s1 (promise r) = outcome st (promise r)" by (simp add: outcome_def clearTimeout_def)
    have c2: "kept ?s1 (reject (promise r') e ?s1) k r d"
      by (rule kept_reject [OF kept_tracked [OF a [OF m ne]]])
         (use other_entry_apart(1) [OF tr ok m ne] o in simp)
    have c3: "kept (reject (promise r') e ?s1) (pending_delete k' (reject (promise r') e ?s1)) k r d"
      by (rule kept_pending_delete [OF kept_tracked [OF c2] ne])
    show ?thesis using a [OF m ne] c2 c3 by (blast intro: kept_trans)
  qed
  have c: "kept st (pending_delete k' (resolve (promise r') v (clearTimeout (timeout r') st))) k r d"
    if m: "map_of (pendingRequests st) k' = Some r'" and ne: "k' \<noteq> k" for k' r' v
  proof -
    let ?s1 = "clearTimeout (timeout r') st"
    have o: "outcome ?s1 (promise r) = outcome st (promise r)" by (simp add: outcome_def clearTimeout_def)
    have c2: "kept ?s1 (resolve (promise r') v ?s1) k r d"
      by (rule kept_resolve [OF kept_tracked [OF a [OF m ne]]])
         (use other_entry_apart(1) [OF tr ok m ne] o in simp)
    have c3: "kept (resolve (promise r') v ?s1) (pending_delete k' (resolve (promise r') v ?s1)) k r d"
      by (rule kept_pending_delete [OF kept_tracked [OF c2] ne])
    show ?thesis using a [OF m ne] c2 c3 by (blast intro: kept_trans)
  qed
  show ?thesis
  proof (cases "get_prop json ''message''")
    case (Inl e)
    then show ?thesis using kept_refl [OF tr] by (simp add: handle_response_def)
  next
    case (Inr m)
    have nk: "k' \<noteq> k"
      if "get_prop m ''id'' = Inr (JStr k')" "get_prop m ''result'' = Inr res" "truthy res" for k' res
      using na [OF Inr, of res] that by auto
    have a': "kept st (clearTimeout (timeout r') st) k r d"
      if "map_of (pendingRequests st) k' = Some r'" "get_prop m ''id'' = Inr (JStr k')"
         "get_prop m ''result'' = Inr res" "truthy res" for k' r' res
      using a [OF that(1) nk [OF that(2,3,4)]] .
    have b': "kept st (pending_delete k' (reject (promise r') e (clearTimeout (timeout r') st))) k r d"
      if "map_of (pendingRequests st) k' = Some r'" "get_prop m ''id'' = Inr (JStr k')"
         "get_prop m ''result'' = Inr res" "truthy res" for k' r' res e
      using b [OF that(1) nk [OF that(2,3,4)]] .
    have c': "kept st (pending_delete k' (resolve (promise r') v (clearTimeout (timeout r') st))) k r d"
      if "map_of (pendingRequests st) k' = Some r'" "get_prop m ''id'' = Inr (JStr k')"
         "get_prop m ''result'' = Inr res" "truthy res" for k' r' res v
      using c [OF that(1) nk [OF that(2,3,4)]] .
    show ?thesis
      using kept_refl [OF tr] a' b' c' Inr
      by (auto simp: handle_response_def Let_def split: sum.splits js.splits option.splits)
  qed
qed

lemma kept_ws_on_message:
  assumes tr: "tracked st k r d" and ok: "promises_ok st" and na: "\<not> answers k parsed"
  shows "kept st (ws_on_message parsed st) k r d"
proof (cases parsed)
  case (Inl e)
  then show ?thesis using kept_refl [OF tr] by (simp add: ws_on_message_def)
next
  case (Inr json)
  show ?thesis
  proof (cases "get_prop json ''type''")
    case (Inl e)
    then show ?thesis using Inr kept_refl [OF tr] by (simp add: ws_on_message_def)
  next
    case ty: (Inr ty)
    show ?thesis
    proof (cases "ty = JStr ''progress_update''")
      case True
      then have "get_prop json ''id'' \<noteq> Inr (JStr k)" using na Inr ty by (simp add: answers_def)
      then show ?thesis
        using Inr ty True kept_handle_progress_update [OF tr ok] by (simp add: ws_on_message_def)
    next
      case False
      have "\<not> truthy res"
        if "get_prop json ''message'' = Inr m" "get_prop m ''id'' = Inr (JStr k)"
           "get_prop m ''result'' = Inr res" for m res
        using na Inr ty False that by (simp add: answers_def)
      then show ?thesis
        using Inr ty False kept_handle_response [OF tr ok] by (simp add: ws_on_message_def)
    qed
  qed
qed


lemma kept_ws_open_event:
  assumes tr: "tracked st k r d" and ta: "timers_apart st"
  shows "kept st (ws_open_event st) k r d"
proof (cases "ws st")
  case None
  then show ?thesis using kept_refl [OF tr] by (simp add: ws_open_event_def)
next
  case (Some s)
  let ?s0 = "st\<lparr> ws := Some (s\<lparr> readyState := OPEN \<rparr>) \<rparr>"
  let ?s1 = "clearTimeout (connectionTimeout s) ?s0"
  let ?s2 = "?s1\<lparr> currentChannel := None \<rparr>"
  have a0: "kept st ?s0 k r d" by (rule kept_same [OF tr]) simp_all
  have ap: "connectionTimeout s \<noteq> timeout r \<or> map_of (timers ?s0) (timeout r) = None"
  proof (rule tracked_apart [OF kept_tracked [OF a0]])
    assume "(k, r) \<in> set (pendingRequests ?s0)"
    then show "connectionTimeout s \<noteq> timeout r" using ta_socketD [OF ta Some] by auto
  qed
  have a1: "kept ?s0 ?s1 k r d" by (rule kept_clearTimeout [OF kept_tracked [OF a0] ap])
  have a2: "kept ?s1 ?s2 k r d" by (rule kept_same [OF kept_tracked [OF a1]]) simp_all
  have a3: "kept ?s2 (snd (setTimeout TryAutoConnect 1000 ?s2)) k r d"
    by (rule kept_setTimeout [OF kept_tracked [OF a2]]) simp
  have b2: "kept st ?s2 k r d" using a0 a1 a2 by (blast intro: kept_trans)
  have b3: "kept st (snd (setTimeout TryAutoConnect 1000 ?s2)) k r d"
    using b2 a3 by (rule kept_trans)
  have "kept st (ws_on_open (connectionTimeout s) ?s0) k r d"
    using b2 b3 by (simp add: ws_on_open_def Let_def)
  then show ?thesis using Some by (simp add: ws_open_event_def)
qed

lemma kept_ws_closing_event:
  assumes "tracked st k r d"
  shows "kept st (ws_closing_event st) k r d"
  by (rule kept_same [OF assms]) (auto simp: ws_closing_event_def split: option.splits)

text \<open>The close listener ends the request.\<close>

lemma tracked_ws_close_event:
  assumes tr: "tracked st k r d" and ok: "promises_ok st"
  shows "tracked (ws_close_event b st) k r d"
proof (cases "ws st")
  case None
  then show ?thesis using tr by (simp add: ws_close_event_def)
next
  case (Some s)
  let ?s0 = "st\<lparr> ws := Some (s\<lparr> readyState := CLOSED \<rparr>) \<rparr>"
  let ?c = "connectionTimeout s"
  let ?st2 = "(clearTimeout ?c ?s0)\<lparr> ws := None \<rparr>"
  let ?st3 = "reject_all (pendingRequests ?st2) ?st2"
  let ?st' = "ws_on_close ?c b ?s0"
  let ?rej = "map (\<lambda>(k, r). (promise r, Rejected Error_ConnectionClosed)) (pendingRequests st)"
  have eq: "?st' = snd (setTimeout Reconnect b ?st3)" by (simp add: ws_on_close_def Let_def)
  have p2: "pendingRequests ?st2 = pendingRequests st" by (simp add: clearTimeout_def)
  have pe: "pendingRequests ?st' = []"
    using reject_all_empty [of ?st2] by (simp add: eq setTimeout_def)
  have se: "settled ?st' = settled st @ ?rej"
    by (simp add: eq setTimeout_def reject_all_settled p2) (simp add: clearTimeout_def)
  have t3: "set (timers ?st3) \<subseteq> set (timers st)"
    using reject_all_timers_sub [of "pendingRequests ?st2" ?st2]
    by (auto simp: clearTimeout_def AList.delete_eq)
  have ti: "timers ?st' = timers ?st3 @ [(next_timer st, now st + timer_delay b, Reconnect)]"
    by (simp add: eq setTimeout_def clearTimeout_def)
  have nt: "next_timer ?st' = Suc (next_timer st)" by (simp add: eq setTimeout_def clearTimeout_def)
  have np: "next_promise ?st' = next_promise st" by (simp add: eq setTimeout_def clearTimeout_def)
  have bd: "timeout r < next_timer st" "promise r < next_promise st"
    using tr by (auto simp: tracked_def)
  have o: "h = timeout r" if "(h, d', a) \<in> set (timers ?st')" "action_id a = Some k" for h d' a
  proof -
    have "(h, d', a) \<in> set (timers st)" using that t3 by (auto simp: ti)
    then show ?thesis using tr that(2) by (auto simp: tracked_def)
  qed
  from tr have "waiting st k r d \<or> over st k r" by (simp add: tracked_def)
  then have "map_of (timers ?st3) (timeout r) = None \<and>
             (outcome ?st' (promise r) = Some (Rejected Error_TimedOut) \<or>
              outcome ?st' (promise r) = Some (Rejected Error_ConnectionClosed))"
  proof
    assume w: "waiting st k r d"
    then have m: "(k, r) \<in> set (pendingRequests st)" by (auto simp: waiting_def dest: map_of_SomeD)
    have "timeout r \<notin> fst ` set (timers ?st3)"
      using reject_all_timers_cleared [of k r "pendingRequests ?st2" ?st2] m p2 by simp
    then have a: "map_of (timers ?st3) (timeout r) = None" by (rule map_of_absent)
    have "map_of (settled st) (promise r) = None" using w by (simp add: waiting_def outcome_def)
    then have "outcome ?st' (promise r) = Some (Rejected Error_ConnectionClosed)"
      unfolding outcome_def se using map_of_rejections [OF m]
      by (simp add: map_of_append map_add_def)
    then show ?thesis using a by simp
  next
    assume v: "over st k r"
    then have "timeout r \<notin> fst ` set (timers st)" by (simp add: over_def map_of_eq_None_iff)
    then have "timeout r \<notin> fst ` set (timers ?st3)" using t3 by auto
    then have a: "map_of (timers ?st3) (timeout r) = None" by (rule map_of_absent)
    have "outcome ?st' (promise r) = outcome st (promise r)"
      using v by (auto simp: over_def outcome_def se map_of_append map_add_def)
    then show ?thesis using a v by (simp add: over_def)
  qed
  then have "over ?st' k r"
    using bd by (auto simp: over_def pending_has_def pe ti map_add_def split: option.splits)
  then have "tracked ?st' k r d" using bd o by (auto simp: tracked_def nt np)
  then show ?thesis using Some by (simp add: ws_close_event_def)
qed

text \<open>The timer of the request fires.\<close>

lemma waiting_fires:
  assumes w: "waiting st k r d" and due: "d \<le> now st"
  shows "fire_timer (timeout r) cs u st =
           reject (promise r) Error_TimedOut (pending_delete k (clearTimeout (timeout r) st))"
    and "outcome (fire_timer (timeout r) cs u st) (promise r) = Some (Rejected Error_TimedOut)"
    and "\<not> pending_has (fire_timer (timeout r) cs u st) k"
    and "map_of (timers (fire_timer (timeout r) cs u st)) (timeout r) = None"
proof -
  let ?c = "clearTimeout (timeout r) st"
  have has: "pending_has ?c k" using w by (simp add: waiting_def pending_has_def clearTimeout_def)
  show f: "fire_timer (timeout r) cs u st = reject (promise r) Error_TimedOut (pending_delete k ?c)"
    using w due request_timed_out_fires [OF has]
    by (simp add: waiting_def fire_timer_def run_callback_def)
  show "outcome (fire_timer (timeout r) cs u st) (promise r) = Some (Rejected Error_TimedOut)"
    using w by (simp add: f waiting_def outcome_def reject_def pending_delete_def clearTimeout_def
                  map_add_def)
  show "\<not> pending_has (fire_timer (timeout r) cs u st) k"
    by (simp add: f pending_has_def reject_def pending_delete_def clearTimeout_def delete_conv')
  show "map_of (timers (fire_timer (timeout r) cs u st)) (timeout r) = None"
    by (simp add: f reject_def pending_delete_def clearTimeout_def delete_conv')
qed

lemma tracked_fire_own:
  assumes tr: "tracked st k r d"
  shows "tracked (fire_timer (timeout r) cs u st) k r d"
proof (cases "waiting st k r d \<and> d \<le> now st")
  case True
  then have w: "waiting st k r d" and due: "d \<le> now st" by simp_all
  let ?st' = "fire_timer (timeout r) cs u st"
  note f = waiting_fires [OF w due, of cs u]
  have v: "over ?st' k r" using f(2,3,4) by (simp add: over_def)
  have n: "next_timer ?st' = next_timer st" "next_promise ?st' = next_promise st"
    by (simp_all add: f(1) reject_def pending_delete_def clearTimeout_def)
  have o: "h = timeout r" if "(h, d', a) \<in> set (timers ?st')" "action_id a = Some k" for h d' a
  proof -
    have "(h, d', a) \<in> set (timers st)"
      using that(1) by (auto simp: f(1) reject_def pending_delete_def clearTimeout_def AList.delete_eq)
    then show ?thesis using tr that(2) by (auto simp: tracked_def)
  qed
  show ?thesis using tr v o by (auto simp: tracked_def n)
next
  case False
  from tr have "waiting st k r d \<or> over st k r" by (simp add: tracked_def)
  then have "fire_timer (timeout r) cs u st = st"
    using False by (auto simp: fire_timer_def waiting_def over_def)
  then show ?thesis using tr by simp
qed

lemma kept_request_timed_out:
  assumes tr: "tracked st k r d" and ne: "k' \<noteq> k"
      and p: "p' \<noteq> promise r \<or> outcome st (promise r) \<noteq> None"
  shows "kept st (request_timed_out k' p' st) k r d"
proof (cases "pending_has st k'")
  case False
  then show ?thesis using kept_refl [OF tr] by (simp add: request_timed_out_def)
next
  case True
  let ?s1 = "pending_delete k' st"
  have a: "kept st ?s1 k r d" by (rule kept_pending_delete [OF tr ne])
  have "outcome ?s1 (promise r) = outcome st (promise r)" by (simp add: outcome_def pending_delete_def)
  then have b: "kept ?s1 (reject p' Error_TimedOut ?s1) k r d"
    using p by (intro kept_reject [OF kept_tracked [OF a]]) simp
  show ?thesis using True kept_trans [OF a b] by (simp add: request_timed_out_def)
qed

lemma kept_fire_other:
  assumes tr: "tracked st k r d" and ok: "promises_ok st"
      and ne: "h' \<noteq> timeout r" and u: "u \<noteq> k"
  shows "kept st (fire_timer h' cs u st) k r d"
proof (cases "map_of (timers st) h'")
  case None
  then show ?thesis using kept_refl [OF tr] by (simp add: fire_timer_def)
next
  case (Some da)
  obtain dl a where da: "da = (dl, a)" by (cases da)
  have mem: "(h', dl, a) \<in> set (timers st)" using Some da by (auto dest: map_of_SomeD)
  let ?c = "clearTimeout h' st"
  have c0: "kept st ?c k r d" by (rule kept_clearTimeout [OF tr]) (simp add: ne)
  have tc: "tracked ?c k r d" using c0 by (rule kept_tracked)
  have nk: "k' \<noteq> k" if "action_id a = Some k'" for k'
    using tr mem that ne by (auto simp: tracked_def)
  have req: "kept ?c (request_timed_out k' p' ?c) k r d"
    if a: "a = RequestTimeout k' p' \<or> a = ProgressTimeout k' p'" for k' p'
  proof (rule kept_request_timed_out [OF tc])
    show k: "k' \<noteq> k" using nk a by auto
    have own: "owner st p' k'" using pok_timerD [OF ok mem] a by auto
    from tr have "waiting st k r d \<or> over st k r" by (simp add: tracked_def)
    then show "p' \<noteq> promise r \<or> outcome ?c (promise r) \<noteq> None"
    proof
      assume "waiting st k r d"
      then have "(k, r) \<in> set (pendingRequests st)" by (auto simp: waiting_def dest: map_of_SomeD)
      then show ?thesis using ownerD [OF own] k by auto
    next
      assume "over st k r"
      then show ?thesis by (auto simp: over_def outcome_def clearTimeout_def)
    qed
  qed
  have "kept ?c (run_callback a cs u ?c) k r d"
  proof (cases a)
    case ConnectionTimeout
    have "kept ?c (?c\<lparr> ws := w \<rparr>) k r d" for w by (rule kept_same [OF tc]) simp_all
    then show ?thesis using ConnectionTimeout kept_refl [OF tc]
      by (auto simp: run_callback_def split: option.splits)
  next
    case TryAutoConnect
    then show ?thesis using kept_tryAutoConnect [OF tc u] by (simp add: run_callback_def)
  next
    case Reconnect
    then show ?thesis using kept_connectToFigma [OF tc] by (simp add: run_callback_def)
  next
    case (RequestTimeout k' p')
    then show ?thesis using req by (simp add: run_callback_def)
  next
    case (ProgressTimeout k' p')
    then show ?thesis using req by (simp add: run_callback_def)
  qed
  then have "kept st (run_callback a cs u ?c) k r d" using c0 by (blast intro: kept_trans)
  then show ?thesis using Some da kept_refl [OF tr] by (simp add: fire_timer_def)
qed


text \<open>Every event that leaves the request alone keeps it waiting or over.\<close>

lemma kept_step:
  assumes tr: "tracked st k r d" and ok: "promises_ok st" and ta: "timers_apart st"
      and la: "leaves_alone k e" and kw: "keeps_waiting (timeout r) e"
  shows "kept st (client_step e st) k r d"
proof (cases e)
  case Call_connectToFigma
  then show ?thesis using kept_connectToFigma [OF tr] by simp
next
  case (Call_sendCommandToFigma c ps t u)
  then show ?thesis using la kept_sendCommandToFigma [OF tr, of u] by simp
next
  case (Call_joinChannel c u)
  then show ?thesis using la kept_joinChannel [OF tr, of u] by simp
next
  case (Resume_joinChannel c p)
  then show ?thesis using kept_refl [OF tr] kept_joinChannel_resume [OF tr]
    by (simp split: option.splits)
next
  case (Call_autoConnect cs u)
  then show ?thesis using la kept_autoConnect [OF tr, of u] by simp
next
  case Call_disconnect
  have "kept st (snd (disconnect st)) k r d"
    by (rule kept_same [OF tr]) (auto simp: disconnect_def split: option.splits)
  then show ?thesis using Call_disconnect by simp
next
  case (Call_setAutoConnect b)
  have "kept st (setAutoConnect b st) k r d"
    by (rule kept_same [OF tr]) (auto simp: setAutoConnect_def)
  then show ?thesis using Call_setAutoConnect by simp
next
  case Ws_open
  then show ?thesis using kept_ws_open_event [OF tr ta] by simp
next
  case (Ws_message parsed)
  then show ?thesis using la kept_ws_on_message [OF tr ok, of parsed] by simp
next
  case Ws_closing
  then show ?thesis using kept_ws_closing_event [OF tr] by simp
next
  case (Ws_close b)
  then show ?thesis using kw by simp
next
  case Dropped_socket_closes
  then show ?thesis using kept_refl [OF tr] by simp
next
  case (Timer_fires h cs u)
  then show ?thesis using la kw kept_fire_other [OF tr ok, of h u cs] by simp
next
  case (Time_passes ms)
  have "kept st (advance ms st) k r d"
    by (rule kept_same [OF tr]) (auto simp: advance_def)
  then show ?thesis using Time_passes by simp
qed

lemma tracked_step:
  assumes tr: "tracked st k r d" and ok: "promises_ok st" and ta: "timers_apart st"
      and la: "leaves_alone k e"
  shows "tracked (client_step e st) k r d"
proof (cases "keeps_waiting (timeout r) e")
  case True
  then show ?thesis using kept_step [OF tr ok ta la] by (simp add: kept_tracked)
next
  case False
  then have "(\<exists>b. e = Ws_close b) \<or> (\<exists>cs u. e = Timer_fires (timeout r) cs u)"
    by (cases e) auto
  then show ?thesis
    using tracked_ws_close_event [OF tr ok] tracked_fire_own [OF tr] by auto
qed

lemma client_run_snoc: "client_run (evs @ [e]) = client_step e (client_run evs)"
  by (simp add: client_run_def)

lemma tracked_run:
  assumes tr: "tracked (client_run evs) k r d" and la: "\<forall>e \<in> set evs'. leaves_alone k e"
  shows "tracked (client_run (evs @ evs')) k r d"
  using la
proof (induction evs' rule: rev_induct)
  case Nil
  show ?case using tr by simp
next
  case (snoc e es)
  have t: "tracked (client_run (evs @ es)) k r d" using snoc by simp
  have l: "leaves_alone k e" using snoc.prems by simp
  have o: "promises_ok (client_run (evs @ es))" using client_run_ok by simp
  have "tracked (client_step e (client_run (evs @ es))) k r d"
    by (rule tracked_step [OF t o client_run_timers_apart l])
  then show ?case using client_run_snoc [of "evs @ es" e] by simp
qed

lemma waiting_run:
  assumes tr: "tracked (client_run evs) k r d" and la: "\<forall>e \<in> set evs'. leaves_alone k e"
      and kw: "\<forall>e \<in> set evs'. keeps_waiting (timeout r) e"
  shows "map_of (pendingRequests (client_run (evs @ evs'))) k = map_of (pendingRequests (client_run evs)) k"
  using la kw
proof (induction evs' rule: rev_induct)
  case Nil
  show ?case by simp
next
  case (snoc e es)
  have t: "tracked (client_run (evs @ es)) k r d" by (rule tracked_run [OF tr]) (use snoc.prems in simp)
  have l: "leaves_alone k e" and w: "keeps_waiting (timeout r) e" using snoc.prems by simp_all
  have o: "promises_ok (client_run (evs @ es))" using client_run_ok by simp
  have "kept (client_run (evs @ es)) (client_step e (client_run (evs @ es))) k r d"
    by (rule kept_step [OF t o client_run_timers_apart l w])
  then have "map_of (pendingRequests (client_step e (client_run (evs @ es)))) k =
             map_of (pendingRequests (client_run (evs @ es))) k" by (simp add: kept_def)
  then show ?case using snoc client_run_snoc [of "evs @ es" e] by simp
qed

text \<open>A request with a new id that sendCommandToFigma accepts starts waiting.\<close>

lemma request_tracked:
  assumes ok: "promises_ok st" and ha: "handles_allocated st"
      and op: "ws_is_open st" and ch: "command = ''join'' \<or> channel_truthy (currentChannel st)"
      and fr: "\<not> id_in_use st k"
      and r: "r = \<lparr> promise = next_promise st, timeout = next_timer st, lastActivity = now st \<rparr>"
      and st1: "st1 = snd (sendCommandToFigma command params timeoutMs k st)"
      and d: "d = now st + timer_delay timeoutMs"
  shows "tracked st1 k r d" and "waiting st1 k r d"
proof -
  have pe: "pendingRequests st1 = AList.update k r (pendingRequests st)"
    using op ch
    by (auto simp: st1 r sendCommandToFigma_def Let_def ws_is_open_def setTimeout_def
          pending_set_def split: option.splits)
  have ti: "timers st1 = timers st @ [(next_timer st, d, RequestTimeout k (next_promise st))]"
    using op ch
    by (auto simp: st1 d sendCommandToFigma_def Let_def ws_is_open_def setTimeout_def
          pending_set_def split: option.splits)
  have se: "settled st1 = settled st"
    using op ch
    by (auto simp: st1 sendCommandToFigma_def Let_def ws_is_open_def setTimeout_def
          pending_set_def split: option.splits)
  have nt: "next_timer st1 = Suc (next_timer st)" and np: "next_promise st1 = Suc (next_promise st)"
    using op ch
    by (auto simp: st1 sendCommandToFigma_def Let_def ws_is_open_def setTimeout_def
          pending_set_def split: option.splits)
  have "next_timer st \<notin> fst ` set (timers st)" using ha_timerD [OF ha] by fastforce
  then have no: "map_of (timers st) (next_timer st) = None" by (rule map_of_absent)
  show w: "waiting st1 k r d"
    using no outcome_fresh [OF ok]
    by (simp add: waiting_def pe ti se outcome_def update_conv' r map_add_def)
  have o: "h = timeout r" if "(h, d', a) \<in> set (timers st1)" "action_id a = Some k" for h d' a
    using that fr by (auto simp: ti id_in_use_def r)
  show "tracked st1 k r d" using w o by (auto simp: tracked_def nt np r)
qed

section \<open>Properties of the relay client\<close>

subsection \<open>C1: responses\<close>

text \<open>
  What the listener does with a response that carries a truthy \<open>result\<close> and whose \<open>error\<close> can be
  converted to a string: in every reachable state, if the embedded message id is the id of a
  pending request, the entry is removed, its timer is cancelled, and the promise is rejected
  with the error when the \<open>error\<close> field is truthy and resolved with the result otherwise.
\<close>

lemma response_settles_request:
  assumes ty: "get_prop json ''type'' = Inr ty" "ty \<noteq> JStr ''progress_update''"
      and ms: "get_prop json ''message'' = Inr m"
      and id: "get_prop m ''id'' = Inr (JStr rid)" "rid \<noteq> []"
      and re: "get_prop m ''result'' = Inr res" "truthy res"
      and er: "get_prop m ''error'' = Inr err" "\<not> to_string_throws err"
      and en: "map_of (pendingRequests (client_run evs)) rid = Some r"
  shows "let st = client_run evs;
             st' = ws_on_message (Inr json) st
         in \<not> pending_has st' rid \<and>
            map_of (timers st') (timeout r) = None \<and>
            outcome st' (promise r) =
              Some (if truthy err then Rejected (Error_FromFigma err) else Resolved res)"
proof -
  let ?st = "client_run evs"
  let ?x = "if truthy err then Rejected (Error_FromFigma err) else Resolved res"
  let ?st' = "ws_on_message (Inr json) ?st"
  have ok: "promises_ok ?st" using client_run_ok by auto
  have has: "pending_has ?st rid" using en by (simp add: pending_has_def)
  have s: "settled ?st' = settled ?st @ [(promise r, ?x)]"
    using ty ms id re er en has
    by (simp add: ws_on_message_def handle_response_def Let_def pending_delete_def reject_def
          resolve_def clearTimeout_def)
  have p: "pendingRequests ?st' = AList.delete rid (pendingRequests ?st)"
    using ty ms id re er en has
    by (simp add: ws_on_message_def handle_response_def Let_def pending_delete_def reject_def
          resolve_def clearTimeout_def)
  have t: "timers ?st' = AList.delete (timeout r) (timers ?st)"
    using ty ms id re er en has
    by (simp add: ws_on_message_def handle_response_def Let_def pending_delete_def reject_def
          resolve_def clearTimeout_def)
  have a: "\<not> pending_has ?st' rid" by (simp add: pending_has_def p delete_conv')
  have b: "map_of (timers ?st') (timeout r) = None" by (simp add: t delete_conv')
  have c: "outcome ?st' (promise r) = Some ?x"
    using outcome_appended [OF outcome_unsettled [OF ok en] s] .
  show ?thesis unfolding Let_def using a b c by simp
qed

text \<open>
  C1 says that a non-progress envelope whose embedded message id matches a pending request
  rejects the entry with the error when the message carries an error field, and that the
  entry is then removed and its timer cancelled. The guard of the listener also demands a
  truthy \<open>message.result\<close>, so a response that carries only an error never reaches the branch
  that rejects: with the request \<open>r1\<close> pending, the frame
  \<^verbatim>\<open>{"type":"broadcast","message":{"id":"r1","error":"Node not found"},"channel":"figma"}\<close>
  leaves the whole state as it was. The promise stays unsettled, the entry stays in the table
  and its timer stays active; 100 ms after the request was sent the timer fires and the promise
  is rejected with the timeout error, not with the error of the response.
\<close>

theorem C1_error_only_response_ignored:
  "map_of (pendingRequests (client_run pending_run)) ''r1'' =
     Some \<lparr> promise = 1, timeout = 3, lastActivity = 0 \<rparr> \<and>
   ws_on_message (Inr error_response) (client_run pending_run) = client_run pending_run \<and>
   outcome (ws_on_message (Inr error_response) (client_run pending_run)) 1 = None \<and>
   pending_has (ws_on_message (Inr error_response) (client_run pending_run)) ''r1'' \<and>
   map_of (timers (ws_on_message (Inr error_response) (client_run pending_run))) 3 =
     Some (100, RequestTimeout ''r1'' 1) \<and>
   outcome (client_run (pending_run @
      [Ws_message (Inr error_response), Time_passes 100, Timer_fires 3 [] []])) 1 =
     Some (Rejected Error_TimedOut)"
  by code_simp

subsection \<open>C2: progress updates\<close>

text \<open>
  C2, for the envelopes that carry a message object: in every reachable state, an envelope of
  type \<open>progress_update\<close> whose \<open>message\<close> field is neither absent nor null and whose top-level
  \<open>id\<close> is the (non-empty) id of a pending request settles nothing and removes nothing. The
  entry keeps its place and its promise, its last activity becomes the current time, its old
  timer is cancelled (so it can no longer fire), and its new timer has the deadline of the
  current time plus 120000 ms. Every other entry is unchanged.
\<close>

theorem C2_progress_update_rearms_timer:
  assumes ty: "get_prop json ''type'' = Inr (JStr ''progress_update'')"
      and id: "get_prop json ''id'' = Inr (JStr rid)" "rid \<noteq> []"
      and ms: "get_prop json ''message'' = Inr m" "m \<noteq> JNull" "m \<noteq> JUndefined"
      and en: "map_of (pendingRequests (client_run evs)) rid = Some r"
  shows "let st = client_run evs;
             st' = ws_on_message (Inr json) st
         in settled st' = settled st \<and>
            outcome st' (promise r) = None \<and>
            map fst (pendingRequests st') = map fst (pendingRequests st) \<and>
            map_of (pendingRequests st') =
              (map_of (pendingRequests st))(rid \<mapsto> r\<lparr> lastActivity := now st, timeout := next_timer st \<rparr>) \<and>
            map_of (timers st') (timeout r) = None \<and>
            map_of (timers st') (next_timer st) = Some (now st + 120000, ProgressTimeout rid (promise r)) \<and>
            fire_timer (timeout r) chans uuid st' = st'"
proof -
  let ?st = "client_run evs"
  let ?r' = "r\<lparr> lastActivity := now ?st, timeout := next_timer ?st \<rparr>"
  let ?st' = "pending_set rid ?r'
                (snd (setTimeout (ProgressTimeout rid (promise r)) 120000 (clearTimeout (timeout r) ?st)))"
  have ha: "handles_allocated ?st" and ok: "promises_ok ?st" using client_run_ok by auto
  obtain x where d: "get_prop m ''data'' = Inr x" using get_prop_defined [OF ms(2,3)] by blast
  have has: "pending_has ?st rid" using en by (simp add: pending_has_def)
  have eq: "ws_on_message (Inr json) ?st = ?st'"
    using ty id ms(1) d has en
    by (simp add: ws_on_message_def handle_progress_update_def js_or_def Let_def setTimeout_def
          clearTimeout_def)
  have mem: "(rid, r) \<in> set (pendingRequests ?st)" using en by (rule map_of_SomeD)
  have old: "timeout r < next_timer ?st" using ha_pendingD [OF ha mem] .
  have nt: "next_timer ?st \<notin> fst ` set (timers ?st)" using ha_timerD [OF ha] by fastforce
  have t: "timers ?st' = AList.delete (timeout r) (timers ?st)
                           @ [(next_timer ?st, now ?st + 120000, ProgressTimeout rid (promise r))]"
    by (simp add: pending_set_def setTimeout_def clearTimeout_def timer_delay_def)
  have a: "settled ?st' = settled ?st"
    by (simp add: pending_set_def setTimeout_def clearTimeout_def)
  have b: "outcome ?st' (promise r) = None"
    using outcome_unsettled [OF ok en] a by (simp add: outcome_def)
  have c: "map fst (pendingRequests ?st') = map fst (pendingRequests ?st)"
    using mem by (force simp: pending_set_def setTimeout_def clearTimeout_def update_keys)
  have d: "map_of (pendingRequests ?st') = (map_of (pendingRequests ?st))(rid \<mapsto> ?r')"
    by (simp add: pending_set_def setTimeout_def clearTimeout_def update_conv')
  have e: "map_of (timers ?st') (timeout r) = None"
    using old by (simp add: t map_of_append map_add_def delete_conv')
  have f: "map_of (timers ?st') (next_timer ?st)
             = Some (now ?st + 120000, ProgressTimeout rid (promise r))"
    using map_of_absent [OF nt] by (simp add: t map_of_append map_add_def delete_conv')
  have g: "fire_timer (timeout r) chans uuid ?st' = ?st'"
    using e by (simp add: fire_timer_def)
  show ?thesis
    unfolding Let_def eq using a b c d e f g by simp
qed

text \<open>
  An instance: the request \<open>r1\<close> was sent at time 0 with a timeout of 100 ms; a progress update
  arrives at time 80. The timer 3 is gone, and the new timer 4 is due at 120080. The response
  that arrives at time 150 resolves the request.
\<close>

theorem C2_progress_update_rearms_timer_witness:
  "get_prop progress_frame ''type'' = Inr (JStr ''progress_update'') \<and>
   get_prop progress_frame ''id'' = Inr (JStr ''r1'') \<and>
   map_of (pendingRequests (client_run progress_run)) ''r1'' =
     Some \<lparr> promise = 1, timeout = 3, lastActivity = 0 \<rparr> \<and>
   map_of (pendingRequests (ws_on_message (Inr progress_frame) (client_run progress_run))) ''r1'' =
     Some \<lparr> promise = 1, timeout = 4, lastActivity = 80 \<rparr> \<and>
   map_of (timers (ws_on_message (Inr progress_frame) (client_run progress_run))) 3 = None \<and>
   map_of (timers (ws_on_message (Inr progress_frame) (client_run progress_run))) 4 =
     Some (120080, ProgressTimeout ''r1'' 1) \<and>
   outcome (client_run (progress_run @
      [Ws_message (Inr progress_frame), Time_passes 70, Timer_fires 3 [] [],
       Ws_message (Inr late_response)])) 1 = Some (Resolved (JStr ''done''))"
proof -
  let ?m = "JObj [(''data'', JObj [(''commandType'', JStr ''scan''), (''progress'', JNum 50),
                                   (''message'', JStr ''half way'')])]"
  let ?r = "\<lparr> promise = 1, timeout = 3, lastActivity = 0 \<rparr>"
  have h1: "get_prop progress_frame ''type'' = Inr (JStr ''progress_update'')" by code_simp
  have h2: "get_prop progress_frame ''id'' = Inr (JStr ''r1'')" by code_simp
  have h3: "''r1'' \<noteq> []" by simp
  have h4: "get_prop progress_frame ''message'' = Inr ?m" by code_simp
  have h5: "?m \<noteq> JNull" "?m \<noteq> JUndefined" by simp_all
  have h6: "map_of (pendingRequests (client_run progress_run)) ''r1'' = Some ?r" by code_simp
  have n: "next_timer (client_run progress_run) = 4" "now (client_run progress_run) = 80"
    by code_simp+
  have r: "outcome (client_run (progress_run @
      [Ws_message (Inr progress_frame), Time_passes 70, Timer_fires 3 [] [],
       Ws_message (Inr late_response)])) 1 = Some (Resolved (JStr ''done''))"
    by code_simp
  show ?thesis
    using C2_progress_update_rearms_timer [OF h1 h2 h3 h4 h5 h6, of "[]" "[]"] h1 h2 h6 r
    by (simp add: Let_def n)
qed

text \<open>
  C2 as stated, for every envelope of type \<open>progress_update\<close> whose id matches, does not hold:
  the listener reads \<^verbatim>\<open>json.message.data\<close> before it looks at the table, which throws when the
  envelope has no \<open>message\<close>; the exception is caught and logged. At time 80 the frame
  \<^verbatim>\<open>{"type":"progress_update","id":"r1"}\<close> changes nothing, the timer 3 keeps its deadline
  of 100, and at time 100 the request times out.
\<close>

theorem C2_progress_update_without_message:
  "map_of (pendingRequests (client_run progress_run)) ''r1'' =
     Some \<lparr> promise = 1, timeout = 3, lastActivity = 0 \<rparr> \<and>
   get_prop bare_progress_frame ''type'' = Inr (JStr ''progress_update'') \<and>
   get_prop bare_progress_frame ''id'' = Inr (JStr ''r1'') \<and>
   ws_on_message (Inr bare_progress_frame) (client_run progress_run) = client_run progress_run \<and>
   map_of (timers (ws_on_message (Inr bare_progress_frame) (client_run progress_run))) 3 =
     Some (100, RequestTimeout ''r1'' 1) \<and>
   outcome (client_run (progress_run @
      [Ws_message (Inr bare_progress_frame), Time_passes 20, Timer_fires 3 [] []])) 1 =
     Some (Rejected Error_TimedOut)"
  by code_simp

subsection \<open>C3: timeouts\<close>

text \<open>
  C3. Let sendCommandToFigma accept a request in a reachable state (the socket is open, and
  the command is \<open>join\<close> or a channel is joined), under an id that is not in use. The request
  gets an entry and a timer; the timer is due after the delay that the runtime gives to
  \<open>timeoutMs\<close>, which is \<open>timeoutMs\<close> itself from 1 to 2147483647 ms. Then, after any events that
  leave the request alone (no resolution and no progress update of it arrives, and no other
  request takes its id): (1) the request is either still waiting, with its entry in the
  table, that timer active and its promise not settled, or it is over, with no entry, no
  timer, and its promise rejected with the timeout error or the connection-closed error;
  (2) it is still waiting if the socket has not closed and the timer has not fired; (3) when
  the timer fires, at or after its deadline, the entry is removed and the promise is
  rejected with the timeout error. Moreover, in every reachable state, (4) when the active
  timer of any pending request fires at or after its deadline, the entry is removed and its
  promise is rejected with the timeout error; and (5) in any state in which the table has no
  entry for an id, a response with that id changes nothing: no promise is settled and the
  table is as before.
\<close>

theorem C3_request_times_out:
  assumes quiet: "\<forall>e \<in> set evs'. leaves_alone uuid e"
  shows
    "let st0 = client_run evs;
         p = next_promise st0;
         h = next_timer st0;
         d = now st0 + timer_delay timeoutMs;
         st = client_run (evs @ Call_sendCommandToFigma command params timeoutMs uuid # evs')
     in (ws_is_open st0 \<and> (command = ''join'' \<or> channel_truthy (currentChannel st0)) \<and>
         \<not> id_in_use st0 uuid \<longrightarrow>
           ((map_of (pendingRequests st) uuid =
               Some \<lparr> promise = p, timeout = h, lastActivity = now st0 \<rparr> \<and>
             map_of (timers st) h = Some (d, RequestTimeout uuid p) \<and>
             outcome st p = None) \<or>
            (\<not> pending_has st uuid \<and> map_of (timers st) h = None \<and>
             (outcome st p = Some (Rejected Error_TimedOut) \<or>
              outcome st p = Some (Rejected Error_ConnectionClosed)))) \<and>
           ((\<forall>e \<in> set evs'. keeps_waiting h e) \<longrightarrow>
              map_of (pendingRequests st) uuid =
                Some \<lparr> promise = p, timeout = h, lastActivity = now st0 \<rparr> \<and>
              map_of (timers st) h = Some (d, RequestTimeout uuid p) \<and>
              outcome st p = None) \<and>
           (map_of (timers st) h \<noteq> None \<and> d \<le> now st \<longrightarrow>
              (let st' = fire_timer h chans u st
               in \<not> pending_has st' uuid \<and> map_of (timers st') h = None \<and>
                  outcome st' p = Some (Rejected Error_TimedOut)))) \<and>
        (map_of (pendingRequests st0) rid = Some r \<and>
         map_of (timers st0) (timeout r) = Some (deadline, callback) \<and> deadline \<le> now st0 \<longrightarrow>
           (let st' = fire_timer (timeout r) chans u st0
            in \<not> pending_has st' rid \<and>
               settled st' = settled st0 @ [(promise r, Rejected Error_TimedOut)] \<and>
               outcome st' (promise r) = Some (Rejected Error_TimedOut))) \<and>
        (\<not> pending_has s rid \<and> get_prop json ''type'' = Inr ty \<and> ty \<noteq> JStr ''progress_update'' \<and>
         get_prop json ''message'' = Inr m \<and> get_prop m ''id'' = Inr (JStr rid) \<longrightarrow>
           ws_on_message (Inr json) s = s)"
proof -
  let ?init = "client_run evs"
  let ?p = "next_promise ?init"
  let ?h = "next_timer ?init"
  let ?d = "now ?init + timer_delay timeoutMs"
  let ?r = "\<lparr> promise = ?p, timeout = ?h, lastActivity = now ?init \<rparr>"
  let ?e = "Call_sendCommandToFigma command params timeoutMs uuid"
  let ?after = "client_run (evs @ ?e # evs')"
  have ha: "handles_allocated ?init" and ok: "promises_ok ?init" using client_run_ok by auto
  have A: "((waiting ?after uuid ?r ?d \<or> over ?after uuid ?r) \<and>
            ((\<forall>e \<in> set evs'. keeps_waiting ?h e) \<longrightarrow> waiting ?after uuid ?r ?d) \<and>
            (map_of (timers ?after) ?h \<noteq> None \<and> ?d \<le> now ?after \<longrightarrow>
               \<not> pending_has (fire_timer ?h chans u ?after) uuid \<and>
               map_of (timers (fire_timer ?h chans u ?after)) ?h = None \<and>
               outcome (fire_timer ?h chans u ?after) ?p = Some (Rejected Error_TimedOut)))"
    if op: "ws_is_open ?init" and ch: "command = ''join'' \<or> channel_truthy (currentChannel ?init)"
      and fr: "\<not> id_in_use ?init uuid"
  proof -
    have s1: "client_run (evs @ [?e]) = snd (sendCommandToFigma command params timeoutMs uuid ?init)"
      by (simp add: client_run_snoc)
    note rt = request_tracked [OF ok ha op ch fr refl s1 [symmetric, THEN sym] refl]
    have ap: "evs @ ?e # evs' = (evs @ [?e]) @ evs'" by simp
    have t: "tracked ?after uuid ?r ?d"
      unfolding ap by (rule tracked_run [OF rt(1) quiet])
    then have a: "waiting ?after uuid ?r ?d \<or> over ?after uuid ?r" by (simp add: tracked_def)
    have b: "waiting ?after uuid ?r ?d" if kw: "\<forall>e \<in> set evs'. keeps_waiting ?h e"
    proof -
      have "map_of (pendingRequests ?after) uuid = map_of (pendingRequests (client_run (evs @ [?e]))) uuid"
        unfolding ap by (rule waiting_run [OF rt(1) quiet]) (use kw in simp)
      then have "pending_has ?after uuid" using rt(2) by (simp add: waiting_def pending_has_def)
      then show ?thesis using a by (auto simp: over_def)
    qed
    have c: "\<not> pending_has (fire_timer ?h chans u ?after) uuid \<and>
             map_of (timers (fire_timer ?h chans u ?after)) ?h = None \<and>
             outcome (fire_timer ?h chans u ?after) ?p = Some (Rejected Error_TimedOut)"
      if "map_of (timers ?after) ?h \<noteq> None" "?d \<le> now ?after"
    proof -
      have w: "waiting ?after uuid ?r ?d" using a that(1) by (auto simp: over_def)
      show ?thesis using waiting_fires [OF w that(2), of chans u] by simp
    qed
    show ?thesis using a b c by blast
  qed
  have B: "map_of (pendingRequests ?init) rid = Some r \<and>
           map_of (timers ?init) (timeout r) = Some (deadline, callback) \<and> deadline \<le> now ?init \<longrightarrow>
           (let st' = fire_timer (timeout r) chans u ?init
            in \<not> pending_has st' rid \<and>
               settled st' = settled ?init @ [(promise r, Rejected Error_TimedOut)] \<and>
               outcome st' (promise r) = Some (Rejected Error_TimedOut))"
  proof (intro impI, elim conjE)
    assume en: "map_of (pendingRequests ?init) rid = Some r"
      and ti: "map_of (timers ?init) (timeout r) = Some (deadline, callback)"
      and du: "deadline \<le> now ?init"
    have mem: "(rid, r) \<in> set (pendingRequests ?init)" using en by (rule map_of_SomeD)
    have "(timeout r, deadline, callback) \<in> set (timers ?init)" using ti by (rule map_of_SomeD)
    then have cb: "callback = RequestTimeout rid (promise r) \<or> callback = ProgressTimeout rid (promise r)"
      using pok_entryD [OF ok mem] by (rule entry_ok_linkD [rotated])
    let ?c = "clearTimeout (timeout r) ?init"
    have has: "pending_has ?c rid" using en by (simp add: pending_has_def clearTimeout_def)
    have f: "fire_timer (timeout r) chans u ?init = reject (promise r) Error_TimedOut (pending_delete rid ?c)"
      using ti du cb request_timed_out_fires [OF has]
      by (auto simp: fire_timer_def run_callback_def)
    have s: "settled (reject (promise r) Error_TimedOut (pending_delete rid ?c))
               = settled ?init @ [(promise r, Rejected Error_TimedOut)]"
      by (simp add: reject_def pending_delete_def clearTimeout_def)
    have g: "\<not> pending_has (reject (promise r) Error_TimedOut (pending_delete rid ?c)) rid"
      by (simp add: pending_has_def reject_def pending_delete_def clearTimeout_def delete_conv')
    show "let st' = fire_timer (timeout r) chans u ?init
          in \<not> pending_has st' rid \<and>
             settled st' = settled ?init @ [(promise r, Rejected Error_TimedOut)] \<and>
             outcome st' (promise r) = Some (Rejected Error_TimedOut)"
      unfolding Let_def f using s g outcome_appended [OF outcome_unsettled [OF ok en] s] by simp
  qed
  have C: "\<not> pending_has s rid \<and> get_prop json ''type'' = Inr ty \<and> ty \<noteq> JStr ''progress_update'' \<and>
           get_prop json ''message'' = Inr m \<and> get_prop m ''id'' = Inr (JStr rid) \<longrightarrow>
           ws_on_message (Inr json) s = s"
    by (auto simp: ws_on_message_def handle_response_def split: sum.splits)
  have A': "ws_is_open ?init \<and> (command = ''join'' \<or> channel_truthy (currentChannel ?init)) \<and>
            \<not> id_in_use ?init uuid \<longrightarrow>
              ((map_of (pendingRequests ?after) uuid = Some ?r \<and>
                map_of (timers ?after) ?h = Some (?d, RequestTimeout uuid ?p) \<and>
                outcome ?after ?p = None) \<or>
               (\<not> pending_has ?after uuid \<and> map_of (timers ?after) ?h = None \<and>
                (outcome ?after ?p = Some (Rejected Error_TimedOut) \<or>
                 outcome ?after ?p = Some (Rejected Error_ConnectionClosed)))) \<and>
              ((\<forall>e \<in> set evs'. keeps_waiting ?h e) \<longrightarrow>
                 map_of (pendingRequests ?after) uuid = Some ?r \<and>
                 map_of (timers ?after) ?h = Some (?d, RequestTimeout uuid ?p) \<and>
                 outcome ?after ?p = None) \<and>
              (map_of (timers ?after) ?h \<noteq> None \<and> ?d \<le> now ?after \<longrightarrow>
                 (let st' = fire_timer ?h chans u ?after
                  in \<not> pending_has st' uuid \<and> map_of (timers st') ?h = None \<and>
                     outcome st' ?p = Some (Rejected Error_TimedOut)))"
    using A by (simp add: waiting_def over_def Let_def)
  show ?thesis
    unfolding Let_def
    by (rule conjI [OF A' [unfolded Let_def] conjI [OF B [unfolded Let_def] C]])
qed

text \<open>
  An instance: \<open>r1\<close> is sent with a timeout of 100 ms. The relay echoes the command, a second
  request \<open>r2\<close> is sent and gets a response whose \<open>error\<close> cannot be converted to a string (which
  cancels the timer of \<open>r2\<close> and leaves its entry), and 100 ms pass. The request \<open>r1\<close> is still
  waiting; its timer fires, its promise is rejected with the timeout error, and the response
  that arrives afterwards changes nothing.
\<close>

theorem C3_request_times_out_witness:
  "list_all (leaves_alone ''r1'') busy_run \<and>
   list_all (keeps_waiting 3) busy_run \<and>
   ws_is_open (client_run joined_run) \<and>
   channel_truthy (currentChannel (client_run joined_run)) \<and>
   \<not> id_in_use (client_run joined_run) ''r1'' \<and>
   map_of (pendingRequests (client_run (pending_run @ busy_run))) ''r1'' =
     Some \<lparr> promise = 1, timeout = 3, lastActivity = 0 \<rparr> \<and>
   map_of (timers (client_run (pending_run @ busy_run))) 3 = Some (100, RequestTimeout ''r1'' 1) \<and>
   outcome (client_run (pending_run @ busy_run)) 1 = None \<and>
   pending_has (client_run (pending_run @ busy_run)) ''r2'' \<and>
   map_of (timers (client_run (pending_run @ busy_run))) 4 = None \<and>
   100 \<le> now (client_run (pending_run @ busy_run)) \<and>
   \<not> pending_has (fire_timer 3 [] [] (client_run (pending_run @ busy_run))) ''r1'' \<and>
   outcome (fire_timer 3 [] [] (client_run (pending_run @ busy_run))) 1 =
     Some (Rejected Error_TimedOut) \<and>
   ws_on_message (Inr late_response) (fire_timer 3 [] [] (client_run (pending_run @ busy_run))) =
     fire_timer 3 [] [] (client_run (pending_run @ busy_run))"
proof -
  let ?j = "client_run joined_run"
  let ?t = "client_run (pending_run @ busy_run)"
  let ?f = "fire_timer 3 [] [] ?t"
  let ?m = "JObj [(''id'', JStr ''r1''), (''result'', JStr ''done'')]"
  have q: "\<forall>e \<in> set busy_run. leaves_alone ''r1'' e" by code_simp
  have kw: "\<forall>e \<in> set busy_run. keeps_waiting 3 e" by code_simp
  have h1: "ws_is_open ?j" by code_simp
  have h2: "channel_truthy (currentChannel ?j)" by code_simp
  have h3: "\<not> id_in_use ?j ''r1''" by code_simp
  have n: "next_promise ?j = 1" "next_timer ?j = 3" "now ?j = 0" by code_simp+
  have h4: "pending_has ?t ''r2''" by code_simp
  have h5: "map_of (timers ?t) 4 = None" by code_simp
  have h6: "100 \<le> now ?t" by code_simp
  have h7: "\<not> pending_has ?f ''r1''" by code_simp
  have h8: "get_prop late_response ''type'' = Inr (JStr ''broadcast'')" by code_simp
  have h9: "get_prop late_response ''message'' = Inr ?m" by code_simp
  have h10: "get_prop ?m ''id'' = Inr (JStr ''r1'')" by code_simp
  have e: "joined_run @ Call_sendCommandToFigma ''get_document_info'' [] 100 ''r1'' # busy_run =
           pending_run @ busy_run" by (simp add: pending_run_def)
  have td: "timer_delay 100 = 100" by (simp add: timer_delay_def)
  note c = C3_request_times_out [OF q, where evs = joined_run and command = "''get_document_info''"
             and params = "[]" and timeoutMs = 100 and chans = "[]" and u = "[]"
             and s = ?f and rid = "''r1''" and json = late_response and ty = "JStr ''broadcast''"
             and m = ?m, unfolded Let_def n e td]
  note c1 = c [THEN conjunct1]
  note c3 = c [THEN conjunct2, THEN conjunct2]
  have w: "map_of (pendingRequests ?t) ''r1'' = Some \<lparr> promise = 1, timeout = 3, lastActivity = 0 \<rparr> \<and>
           map_of (timers ?t) 3 = Some (100, RequestTimeout ''r1'' 1) \<and> outcome ?t 1 = None"
    using c1 h1 h2 h3 kw by simp
  have f: "outcome ?f 1 = Some (Rejected Error_TimedOut)"
    using c1 h1 h2 h3 w h6 by simp
  have l: "ws_on_message (Inr late_response) ?f = ?f"
    using c3 h7 h8 h9 h10 by simp
  show ?thesis using q kw h1 h2 h3 w h4 h5 h6 h7 f l by (simp add: list_all_iff)
qed

subsection \<open>C4: the transport closes\<close>

text \<open>
  What the close listener does when it runs, in a reachable state: the table is empty
  afterwards, \<^verbatim>\<open>reject\<close> has been called with the connection-closed error once for each entry, in
  the order of the table, and for every entry that was in the table its timer is no longer
  active and the outcome of its promise is the rejection with the connection-closed error.
\<close>

lemma close_listener_rejects_all:
  "let st = client_run evs;
       st' = ws_on_close connTimeout backoff st
   in pendingRequests st' = [] \<and>
      settled st' =
        settled st @ map (\<lambda>(k, r). (promise r, Rejected Error_ConnectionClosed)) (pendingRequests st) \<and>
      (\<forall>(k, r) \<in> set (pendingRequests st).
         map_of (timers st') (timeout r) = None \<and>
         outcome st' (promise r) = Some (Rejected Error_ConnectionClosed))"
proof -
  let ?st = "client_run evs"
  let ?st2 = "(clearTimeout connTimeout ?st)\<lparr> ws := None \<rparr>"
  let ?st3 = "reject_all (pendingRequests ?st2) ?st2"
  let ?st' = "snd (setTimeout Reconnect backoff ?st3)"
  have p2: "pendingRequests ?st2 = pendingRequests ?st" by (simp add: clearTimeout_def)
  have ha: "handles_allocated ?st" and ok: "promises_ok ?st" using client_run_ok by auto
  have a: "pendingRequests ?st' = []"
    using reject_all_empty [of ?st2] by (simp add: setTimeout_def)
  have b: "settled ?st' =
             settled ?st @ map (\<lambda>(k, r). (promise r, Rejected Error_ConnectionClosed)) (pendingRequests ?st)"
    by (simp add: setTimeout_def reject_all_settled p2) (simp add: clearTimeout_def)
  have c: "map_of (timers ?st') (timeout r) = None \<and>
           outcome ?st' (promise r) = Some (Rejected Error_ConnectionClosed)"
    if m: "(k, r) \<in> set (pendingRequests ?st)" for k r
  proof
    have "timeout r \<notin> fst ` set (timers ?st3)"
      using reject_all_timers_cleared [of k r "pendingRequests ?st2" ?st2] m p2 by simp
    moreover have "timeout r \<noteq> next_timer ?st3"
      using ha_pendingD [OF ha m] by (simp add: clearTimeout_def)
    ultimately show "map_of (timers ?st') (timeout r) = None"
      by (simp add: setTimeout_def map_of_absent)
    have "map_of (settled ?st) (promise r) = None"
      using entry_ok_unsettledD [OF pok_entryD [OF ok m]] by (rule map_of_absent)
    then show "outcome ?st' (promise r) = Some (Rejected Error_ConnectionClosed)"
      unfolding outcome_def b using map_of_rejections [OF m]
      by (simp add: map_of_append map_add_def)
  qed
  show ?thesis using a b c by (auto simp: ws_on_close_def Let_def)
qed

text \<open>An instance with the two requests \<open>r1\<close> and \<open>r2\<close> pending.\<close>

lemma close_listener_rejects_two:
  "pendingRequests (ws_on_close 0 1000 (client_run two_pending_run)) = [] \<and>
   outcome (ws_on_close 0 1000 (client_run two_pending_run)) 1 = Some (Rejected Error_ConnectionClosed) \<and>
   outcome (ws_on_close 0 1000 (client_run two_pending_run)) 2 = Some (Rejected Error_ConnectionClosed) \<and>
   map_of (timers (ws_on_close 0 1000 (client_run two_pending_run))) 3 = None \<and>
   map_of (timers (ws_on_close 0 1000 (client_run two_pending_run))) 4 = None"
proof -
  let ?st = "client_run two_pending_run"
  have m1: "(''r1'', \<lparr> promise = 1, timeout = 3, lastActivity = 0 \<rparr>) \<in> set (pendingRequests ?st)"
    by code_simp
  have m2: "(''r2'', \<lparr> promise = 2, timeout = 4, lastActivity = 0 \<rparr>) \<in> set (pendingRequests ?st)"
    by code_simp
  note c = close_listener_rejects_all [of two_pending_run 0 1000, unfolded Let_def]
  show ?thesis using c m1 m2 by fastforce
qed

text \<open>
  C4 says that no entry survives the close of the transport. The listener above does what C4
  says, but connectToFigma removes the listeners of a socket that is closing before it opens
  a new one (lines 56 to 59), and sendCommandToFigma calls connectToFigma whenever the
  socket is not open. With the request \<open>r1\<close> pending, the closing handshake of the socket
  starts and a second command is sent: that command is refused, the closing socket is
  replaced by a new one, and when the transport of the old socket closes no listener runs.
  The entry of \<open>r1\<close> survives the close with its timer active and its promise unsettled, and
  100 ms after it was sent the request ends with the timeout error, not with the
  connection-closed error.
\<close>

theorem C4_dropped_socket_keeps_requests:
  "ws (client_run (pending_run @ [Ws_closing])) =
     Some \<lparr> readyState = CLOSING, connectionTimeout = 0 \<rparr> \<and>
   ws (client_run dropped_run) = Some \<lparr> readyState = CONNECTING, connectionTimeout = 4 \<rparr> \<and>
   pendingRequests (client_run dropped_run) =
     [(''r1'', \<lparr> promise = 1, timeout = 3, lastActivity = 0 \<rparr>)] \<and>
   map_of (timers (client_run dropped_run)) 3 = Some (100, RequestTimeout ''r1'' 1) \<and>
   outcome (client_run dropped_run) 1 = None \<and>
   outcome (client_run dropped_run) 2 = Some (Rejected Error_NotConnectedAttempting) \<and>
   outcome (client_run (dropped_run @ [Time_passes 100, Timer_fires 3 [] []])) 1 =
     Some (Rejected Error_TimedOut)"
  by code_simp

subsection \<open>C5: commands before a channel is joined\<close>

text \<open>
  C5. In a reachable state in which the socket is open and no channel is joined, a command
  other than \<open>join\<close> is rejected at once with the must-join error: the promise returned has
  that outcome, nothing is written to the socket, the table is unchanged and no timer is set.
  A \<open>join\<close> command is accepted: its envelope is written, its entry is in the table and its
  promise is not settled.
\<close>

theorem C5_unjoined_command_rejected:
  assumes "ws_is_open (client_run evs)" and "currentChannel (client_run evs) = None"
  shows "let st = client_run evs;
             (p, st') = sendCommandToFigma command params timeoutMs uuid st
         in (command \<noteq> ''join'' \<longrightarrow>
               outcome st' p = Some (Rejected Error_MustJoinChannel) \<and>
               settled st' = settled st @ [(p, Rejected Error_MustJoinChannel)] \<and>
               sent st' = sent st \<and> pendingRequests st' = pendingRequests st \<and>
               timers st' = timers st) \<and>
            (command = ''join'' \<longrightarrow>
               outcome st' p = None \<and>
               sent st' = sent st @ [build_request ''join'' params uuid st] \<and>
               map_of (pendingRequests st') uuid =
                 Some \<lparr> promise = p, timeout = next_timer st, lastActivity = now st \<rparr>)"
proof -
  have ok: "promises_ok (client_run evs)" using client_run_ok by auto
  show ?thesis
    using assms outcome_fresh [OF ok]
    by (auto simp: sendCommandToFigma_def Let_def ws_is_open_def channel_truthy_def reject_def
          setTimeout_def pending_set_def build_request_def update_conv' outcome_def
          map_of_append map_add_def split: option.splits)
qed

text \<open>An instance, right after the socket has opened.\<close>

theorem C5_unjoined_command_rejected_witness:
  "ws_is_open (client_run open_run) \<and> currentChannel (client_run open_run) = None \<and>
   outcome (snd (sendCommandToFigma ''get_document_info'' [] 60000 ''r1'' (client_run open_run))) 0 =
     Some (Rejected Error_MustJoinChannel) \<and>
   sent (snd (sendCommandToFigma ''get_document_info'' [] 60000 ''r1'' (client_run open_run))) =
     sent (client_run open_run) \<and>
   pendingRequests (snd (sendCommandToFigma ''get_document_info'' [] 60000 ''r1'' (client_run open_run))) =
     pendingRequests (client_run open_run) \<and>
   outcome (snd (sendCommandToFigma ''join'' [(''channel'', JStr ''figma'')] 60000 ''j1''
              (client_run open_run))) 0 = None \<and>
   pending_has (snd (sendCommandToFigma ''join'' [(''channel'', JStr ''figma'')] 60000 ''j1''
              (client_run open_run))) ''j1''"
proof -
  let ?st = "client_run open_run"
  have h1: "ws_is_open ?st" by code_simp
  have h2: "currentChannel ?st = None" by code_simp
  have n: "next_promise ?st = 0" by code_simp
  have a: "fst (sendCommandToFigma c p t u ?st) = 0" for c p t u
    using n by (simp add: sendCommandToFigma_def Let_def split: prod.splits)
  have x: "''get_document_info'' \<noteq> ''join''" by simp
  show ?thesis
    using C5_unjoined_command_rejected [OF h1 h2, of "''get_document_info''" "[]" 60000 "''r1''"]
          C5_unjoined_command_rejected [OF h1 h2, of "''join''" "[(''channel'', JStr ''figma'')]" 60000 "''j1''"]
          a [of "''get_document_info''" "[]" 60000 "''r1''"]
          a [of "''join''" "[(''channel'', JStr ''figma'')]" 60000 "''j1''"] h1 h2 x
    by (auto simp: Let_def pending_has_def split: prod.splits)
qed

subsection \<open>C8: autoConnect\<close>




subsection \<open>C10: the joined channel survives the close of the transport\<close>

text \<open>
  C10. The close listener leaves \<open>currentChannel\<close> as it was, so after it getCurrentChannel
  returns the same value and the \<open>connected\<close> flag of getConnectionStatus is still
  \<open>currentChannel \<noteq> null\<close>; the reconnection attempt (connectToFigma) does not change it
  either. The open listener of the new connection sets it to null, and so does disconnect
  when a channel is joined.
\<close>

theorem C10_close_keeps_currentChannel:
  "currentChannel (ws_on_close connTimeout backoff st) = currentChannel st \<and>
   getCurrentChannel (ws_on_close connTimeout backoff st) = getCurrentChannel st \<and>
   status_connected (getConnectionStatus running chans x (ws_on_close connTimeout backoff st)) =
     (currentChannel st \<noteq> None) \<and>
   currentChannel (connectToFigma st) = currentChannel st \<and>
   currentChannel (ws_on_open connTimeout' st) = None \<and>
   (channel_truthy (currentChannel st) \<longrightarrow> currentChannel (snd (disconnect st)) = None)"
  by (auto simp: ws_on_close_def ws_on_open_def Let_def setTimeout_def clearTimeout_def
        getCurrentChannel_def getConnectionStatus_def connectToFigma_def new_socket_def
        disconnect_def joined_channel_def split: option.splits)

text \<open>An instance: the client has joined \<open>figma\<close> and the transport closes.\<close>

theorem C10_close_keeps_currentChannel_witness:
  "channel_truthy (currentChannel (client_run joined_run)) \<and>
   currentChannel (ws_on_close 0 1000 (client_run joined_run)) = Some ''figma'' \<and>
   status_connected (getConnectionStatus True [] () (ws_on_close 0 1000 (client_run joined_run))) \<and>
   currentChannel (ws_on_open 5 (connectToFigma (ws_on_close 0 1000 (client_run joined_run)))) = None \<and>
   currentChannel (snd (disconnect (client_run joined_run))) = None"
proof -
  let ?j = "client_run joined_run"
  have h1: "channel_truthy (currentChannel ?j)" by code_simp
  have h2: "currentChannel ?j = Some ''figma''" by code_simp
  show ?thesis
    using C10_close_keeps_currentChannel [of 0 1000 ?j True "[]" "()" 5] h1 h2
          C10_close_keeps_currentChannel [of 0 1000 "connectToFigma (ws_on_close 0 1000 ?j)" True "[]" "()" 5]
    by simp
qed

section \<open>Properties of the relay server\<close>

subsection \<open>C6: no empty channel\<close>

lemma handle_message_channels [simp]: "channels (handle_message conn data sv) = channels sv"
  by (auto simp: handle_message_def Let_def send_def split: sum.splits)

lemma handle_progress_channels [simp]: "channels (handle_progress conn data sv) = channels sv"
  by (auto simp: handle_progress_def Let_def split: sum.splits)





subsection \<open>C7: messages are broadcast within the channel\<close>

text \<open>
  C7. In every state the server reaches, for a frame of type \<open>message\<close> that names the channel
  \<open>C\<close>: the registry is unchanged; if the sender is not a member of \<open>C\<close> the only envelope
  sent is one error envelope to the sender; if the sender is a member, the envelopes sent are
  exactly one broadcast envelope with the payload to each member of \<open>C\<close> whose transport is
  open, in the order of the set, the sender among them.
\<close>

theorem C7_message_broadcast:
  assumes ty: "get_prop data ''type'' = Inr (JStr ''message'')"
      and ch: "get_prop data ''channel'' = Inr C"
      and pl: "get_prop data ''message'' = Inr payload"
  shows "let sv = server_run evs;
             sv' = srv_message conn (Inr data) sv;
             cs = members sv (key_of C sv)
         in channels sv' = channels sv \<and>
            (conn \<notin> set cs \<longrightarrow> (\<exists>e. outbox sv' = outbox sv @ [(conn, Env_Error e)])) \<and>
            (conn \<in> set cs \<longrightarrow>
               outbox sv' = outbox sv @ map (\<lambda>c. (c, Env_Broadcast payload C)) (filter (is_open sv) cs))"
proof -
  let ?sv = "server_run evs"
  let ?r = "count_received ?sv"
  have ok: "registry_ok ?sv" by (rule registry_ok_run)
  have k: "key_of C ?r = key_of C ?sv" by (cases C) (simp_all add: key_of_def count_received_def)
  have mem: "members (?r\<lparr>next_ref := Suc (next_ref ?r)\<rparr>) (key_of C ?sv) = members ?sv (key_of C ?sv)"
    by (simp add: members_def count_received_def)
  have op: "is_open (?r\<lparr>next_ref := Suc (next_ref ?r)\<rparr>) = is_open ?sv"
    by (simp add: is_open_def count_received_def fun_eq_iff)
  have ob: "outbox ?r = outbox ?sv" "channels ?r = channels ?sv" by (simp_all add: count_received_def)
  have eq: "srv_message conn (Inr data) ?sv = handle_message conn data ?r"
    using ty by (simp add: srv_message_def Let_def)
  show ?thesis
  proof (cases "conn \<in> set (members ?sv (key_of C ?sv))")
    case True
    then have t: "truthy C" using member_truthy [OF ok] by blast
    have m: "map_of (channels ?sv) (key_of C ?sv) = Some (members ?sv (key_of C ?sv))"
      using True by (intro members_Some) auto
    show ?thesis using True t
      by (simp add: eq handle_message_def Let_def ch pl k mem broadcastToChannel_def ob m
            broadcast_loop_outbox op)
  next
    case False
    then show ?thesis
      by (simp add: eq handle_message_def Let_def ch pl k mem send_def ob)
  qed
qed

text \<open>
  An instance: connections 1 and 2 have joined \<open>design\<close>, connection 3 has joined \<open>other\<close>. A
  message of connection 1 to \<open>design\<close> goes to 1 and 2; the same message from connection 3 is
  answered by an error.
\<close>

theorem C7_message_broadcast_witness:
  "get_prop command_frame ''type'' = Inr (JStr ''message'') \<and>
   get_prop command_frame ''channel'' = Inr (JStr ''design'') \<and>
   members (server_run three_clients_run) (Prim (JStr ''design'')) = [1, 2] \<and>
   outbox (srv_message 1 (Inr command_frame) (server_run three_clients_run)) =
     outbox (server_run three_clients_run) @
       [(1, Env_Broadcast (JObj [(''id'', JStr ''r1''), (''command'', JStr ''get_document_info'')])
              (JStr ''design'')),
        (2, Env_Broadcast (JObj [(''id'', JStr ''r1''), (''command'', JStr ''get_document_info'')])
              (JStr ''design''))] \<and>
   (\<exists>e. outbox (srv_message 3 (Inr command_frame) (server_run three_clients_run)) =
          outbox (server_run three_clients_run) @ [(3, Env_Error e)])"
proof -
  let ?sv = "server_run three_clients_run"
  let ?p = "JObj [(''id'', JStr ''r1''), (''command'', JStr ''get_document_info'')]"
  have h1: "get_prop command_frame ''type'' = Inr (JStr ''message'')" by code_simp
  have h2: "get_prop command_frame ''channel'' = Inr (JStr ''design'')" by code_simp
  have h3: "get_prop command_frame ''message'' = Inr ?p" by code_simp
  have k: "key_of (JStr ''design'') ?sv = Prim (JStr ''design'')" by (simp add: key_of_def)
  have m: "members ?sv (Prim (JStr ''design'')) = [1, 2]" by code_simp
  have o: "filter (is_open ?sv) [1, 2] = [1, 2]" by code_simp
  show ?thesis
    using C7_message_broadcast [OF h1 h2 h3, of three_clients_run 1] C7_message_broadcast [OF h1 h2 h3, of three_clients_run 3] h1 h2 m k o
    by (simp add: Let_def)
qed

subsection \<open>C9: malformed frames\<close>

text \<open>
  C9, for what the handler does. A frame that \<^verbatim>\<open>JSON.parse\<close> rejects, or that parses to
  \<^verbatim>\<open>null\<close> (reading its \<open>type\<close> throws), is answered by one error envelope to the sender, and
  the error counter goes up by one. A frame that parses and whose \<open>type\<close> is none of \<open>join\<close>,
  \<open>message\<close> and \<open>progress_update\<close> is ignored: nothing is sent and the error counter is
  unchanged. In both cases the registry and the state of every connection are unchanged.
\<close>

theorem C9_malformed_frame:
  "let sv' = srv_message conn parsed sv
   in ((parsed = Inl err \<or> (\<exists>data. parsed = Inr data \<and> get_prop data ''type'' = Inl err)) \<longrightarrow>
         outbox sv' = outbox sv @ [(conn, Env_Error (Err_Processing err))] \<and>
         errors (server_stats sv') = errors (server_stats sv) + 1 \<and>
         conn_readyState sv' = conn_readyState sv \<and> channels sv' = channels sv) \<and>
      ((\<exists>data ty. parsed = Inr data \<and> get_prop data ''type'' = Inr ty \<and>
           ty \<noteq> JStr ''join'' \<and> ty \<noteq> JStr ''message'' \<and> ty \<noteq> JStr ''progress_update'') \<longrightarrow>
         outbox sv' = outbox sv \<and>
         errors (server_stats sv') = errors (server_stats sv) \<and>
         conn_readyState sv' = conn_readyState sv \<and> channels sv' = channels sv)"
  by (auto simp: srv_message_def Let_def handler_failed_def send_def count_error_def
        count_received_def)

text \<open>An instance of each case, on a server with one connection.\<close>

theorem C9_malformed_frame_witness:
  "outbox (srv_message 1 (Inl SyntaxError) (server_run [Srv_open 1])) =
     outbox (server_run [Srv_open 1]) @ [(1, Env_Error (Err_Processing SyntaxError))] \<and>
   errors (server_stats (srv_message 1 (Inl SyntaxError) (server_run [Srv_open 1]))) =
     errors (server_stats (server_run [Srv_open 1])) + 1 \<and>
   get_prop JNull ''type'' = Inl TypeError \<and>
   outbox (srv_message 1 (Inr JNull) (server_run [Srv_open 1])) =
     outbox (server_run [Srv_open 1]) @ [(1, Env_Error (Err_Processing TypeError))] \<and>
   get_prop ping_frame ''type'' = Inr (JStr ''ping'') \<and>
   outbox (srv_message 1 (Inr ping_frame) (server_run [Srv_open 1])) = outbox (server_run [Srv_open 1]) \<and>
   channels (srv_message 1 (Inr ping_frame) (server_run [Srv_open 1])) = channels (server_run [Srv_open 1])"
proof -
  let ?sv = "server_run [Srv_open 1]"
  have h1: "get_prop JNull ''type'' = Inl TypeError" by simp
  have h2: "get_prop ping_frame ''type'' = Inr (JStr ''ping'')" by code_simp
  have h3: "JStr ''ping'' \<noteq> JStr ''join''" "JStr ''ping'' \<noteq> JStr ''message''"
    "JStr ''ping'' \<noteq> JStr ''progress_update''" by simp_all
  show ?thesis
    using C9_malformed_frame [of 1 "Inl SyntaxError" ?sv SyntaxError]
          C9_malformed_frame [of 1 "Inr JNull" ?sv TypeError]
          C9_malformed_frame [of 1 "Inr ping_frame" ?sv TypeError] h1 h2 h3
    by (simp add: Let_def)
qed

text \<open>
  C9 as stated promises an error envelope and an increment of the error counter for a frame
  without a recognized \<open>type\<close>. The frame \<^verbatim>\<open>{"type":"ping"}\<close> gets no answer and the counter
  is unchanged.
\<close>

theorem C9_unknown_type_ignored:
  "get_prop ping_frame ''type'' = Inr (JStr ''ping'') \<and>
   outbox (srv_message 1 (Inr ping_frame) (server_run [Srv_open 1])) = outbox (server_run [Srv_open 1]) \<and>
   errors (server_stats (srv_message 1 (Inr ping_frame) (server_run [Srv_open 1]))) =
     errors (server_stats (server_run [Srv_open 1]))"
  by code_simp

end
